theory Spec2Isabelle
  imports Main
begin

section \<open>Strings\<close>

text \<open>
  A Python \<^verbatim>\<open>str\<close> is a sequence of Unicode code points, and \<^verbatim>\<open>len\<close>, slicing,
  \<^verbatim>\<open>strip\<close>, \<^verbatim>\<open>split\<close> and \<^verbatim>\<open>re\<close> all count code points. A string is therefore a list of
  code points (natural numbers), not a list of bytes. \<open>ustr\<close> reads an ASCII literal.
\<close>

type_synonym codepoint = nat
type_synonym str = "codepoint list"

definition ustr :: "string \<Rightarrow> str" where
  "ustr s = map of_char s"

text \<open>
  The characters that \<^verbatim>\<open>str.strip()\<close>, \<^verbatim>\<open>str.split()\<close> and the class \<^verbatim>\<open>\s\<close> of a
  \<^verbatim>\<open>str\<close> pattern treat as whitespace (CPython's \<^verbatim>\<open>Py_UNICODE_ISSPACE\<close>).
\<close>

definition isspace :: "codepoint \<Rightarrow> bool" where
  "isspace c \<longleftrightarrow>
     (9 \<le> c \<and> c \<le> 13) \<or> (28 \<le> c \<and> c \<le> 32) \<or> c = 133 \<or> c = 160 \<or> c = 5760 \<or>
     (8192 \<le> c \<and> c \<le> 8202) \<or> c = 8232 \<or> c = 8233 \<or> c = 8239 \<or> c = 8287 \<or> c = 12288"

text \<open>\<^verbatim>\<open>s.strip()\<close>: whitespace removed at both ends.\<close>

definition strip :: "str \<Rightarrow> str" where
  "strip s = rev (dropWhile isspace (rev (dropWhile isspace s)))"

text \<open>\<^verbatim>\<open>s.split()\<close>: the maximal runs of non-whitespace characters, in order.\<close>

fun split_acc :: "str \<Rightarrow> str \<Rightarrow> str list" where
  "split_acc w [] = (if w = [] then [] else [w])"
| "split_acc w (c # cs) =
     (if isspace c then (if w = [] then split_acc [] cs else w # split_acc [] cs)
      else split_acc (w @ [c]) cs)"

definition split :: "str \<Rightarrow> str list" where
  "split s = split_acc [] s"

text \<open>\<^verbatim>\<open>s.startswith(w)\<close>, returning what follows \<open>w\<close> in \<open>s\<close>.\<close>

fun strip_prefix :: "str \<Rightarrow> str \<Rightarrow> str option" where
  "strip_prefix [] s = Some s"
| "strip_prefix (a # w) [] = None"
| "strip_prefix (a # w) (c # cs) = (if a = c then strip_prefix w cs else None)"

section \<open>The regular expressions of the program\<close>

text \<open>
  The program calls \<^verbatim>\<open>re.search\<close> and \<^verbatim>\<open>re.sub\<close> on seven fixed patterns. They use literals,
  character classes, \<^verbatim>\<open>.\<close>, \<^verbatim>\<open>\s\<close>, the anchors \<^verbatim>\<open>^\<close> and \<^verbatim>\<open>$\<close>, alternation, one capture
  group, and greedy or lazy repetition of a single-character item. The matcher below is
  Python's backtracking matcher for this fragment: it returns every way the pattern can
  match at a position, in the order in which backtracking tries them, so that the match
  Python reports is the first element.
\<close>

datatype flags = Flags (multiline: bool) (dotall: bool)

datatype atom =
    Ch codepoint
  | Rng "(codepoint \<times> codepoint) list"
  | Space
  | Dot

fun atom_ok :: "flags \<Rightarrow> atom \<Rightarrow> codepoint \<Rightarrow> bool" where
  "atom_ok f (Ch c) x = (x = c)"
| "atom_ok f (Rng rs) x = list_ex (\<lambda>(lo, hi). lo \<le> x \<and> x \<le> hi) rs"
| "atom_ok f Space x = isspace x"
| "atom_ok f Dot x = (dotall f \<or> x \<noteq> 10)"

datatype rx =
    One atom
  | Lit str
  | Bol
  | Eol
  | Seq rx rx
  | Alt rx rx
  | Grp rx
  | Rep atom nat "nat option" bool

text \<open>
  A matching state: the character before the current position (none at the start of the
  subject), the rest of the subject, and the text of group 1 if it has been captured.
\<close>

type_synonym mstate = "codepoint option \<times> str \<times> str option"

fun ms :: "flags \<Rightarrow> rx \<Rightarrow> mstate \<Rightarrow> mstate list" where
  "ms f (One a) (p, r, g) =
     (case r of [] \<Rightarrow> [] | c # cs \<Rightarrow> if atom_ok f a c then [(Some c, cs, g)] else [])"
| "ms f (Lit w) (p, r, g) =
     (case strip_prefix w r of
        None \<Rightarrow> []
      | Some r' \<Rightarrow> [(if w = [] then p else Some (last w), r', g)])"
| "ms f Bol (p, r, g) =
     (if p = None \<or> (multiline f \<and> p = Some 10) then [(p, r, g)] else [])"
| "ms f Eol (p, r, g) =
     (if r = [] \<or> (if multiline f then take 1 r = [10] else r = [10]) then [(p, r, g)] else [])"
| "ms f (Seq a b) st = concat (map (ms f b) (ms f a st))"
| "ms f (Alt a b) st = ms f a st @ ms f b st"
| "ms f (Grp a) (p, r, g) =
     map (\<lambda>(p', r', g'). (p', r', Some (take (length r - length r') r))) (ms f a (p, r, g))"
| "ms f (Rep a lo hi greedy) (p, r, g) =
     (let avail = length (takeWhile (atom_ok f a) r);
          top = (case hi of None \<Rightarrow> avail | Some h \<Rightarrow> min h avail);
          counts = (if top < lo then [] else if greedy then rev [lo..<Suc top] else [lo..<Suc top])
      in map (\<lambda>n. (if n = 0 then p else Some (r ! (n - 1)), drop n r, g)) counts)"

text \<open>\<^verbatim>\<open>re.search\<close>: the first match at the leftmost position that has one.\<close>

fun search_from :: "flags \<Rightarrow> rx \<Rightarrow> codepoint option \<Rightarrow> str \<Rightarrow> mstate option" where
  "search_from f r p [] = (case ms f r (p, [], None) of [] \<Rightarrow> None | m # _ \<Rightarrow> Some m)"
| "search_from f r p (c # cs) =
     (case ms f r (p, c # cs, None) of [] \<Rightarrow> search_from f r (Some c) cs | m # _ \<Rightarrow> Some m)"

definition re_search :: "flags \<Rightarrow> rx \<Rightarrow> str \<Rightarrow> mstate option" where
  "re_search f r s = search_from f r None s"

text \<open>\<^verbatim>\<open>match.group(1)\<close>, which is \<^verbatim>\<open>None\<close> when the group took no part in the match.\<close>

definition group1 :: "mstate \<Rightarrow> str option" where
  "group1 m = snd (snd m)"

text \<open>
  \<^verbatim>\<open>re.sub(pattern, repl, s)\<close> with a literal replacement: every match, found left to right
  from the end of the previous one, is replaced. The counter is the number of characters
  of the current match still to be dropped. A match of length 0 inserts the replacement
  and keeps the character; none of the program's patterns can match the empty string.
\<close>

fun sub_from :: "flags \<Rightarrow> rx \<Rightarrow> str \<Rightarrow> codepoint option \<Rightarrow> nat \<Rightarrow> str \<Rightarrow> str" where
  "sub_from f r repl p k [] =
     (if k = 0 \<and> ms f r (p, [], None) \<noteq> [] then repl else [])"
| "sub_from f r repl p k (c # cs) =
     (if 0 < k then sub_from f r repl (Some c) (k - 1) cs
      else case ms f r (p, c # cs, None) of
             [] \<Rightarrow> c # sub_from f r repl (Some c) 0 cs
           | (p', r', g') # _ \<Rightarrow>
               (let n = length (c # cs) - length r'
                in if n = 0 then repl @ c # sub_from f r repl (Some c) 0 cs
                   else repl @ sub_from f r repl (Some c) (n - 1) cs))"

definition re_sub :: "flags \<Rightarrow> rx \<Rightarrow> str \<Rightarrow> str \<Rightarrow> str" where
  "re_sub f r repl s = sub_from f r repl None 0 s"

section \<open>get_video_id\<close>

datatype error = ValueError str | AttributeError

definition no_flags :: flags where
  "no_flags = Flags False False"

text \<open>The class \<^verbatim>\<open>[0-9A-Za-z_-]\<close>.\<close>

definition idchar :: atom where
  "idchar = Rng [(48, 57), (65, 90), (97, 122), (95, 95), (45, 45)]"

text \<open>\<^verbatim>\<open>(?:v=|\/)([0-9A-Za-z_-]{11}).*\<close>\<close>

definition pattern_watch :: rx where
  "pattern_watch =
     Seq (Alt (Lit (ustr ''v='')) (Lit (ustr ''/'')))
       (Seq (Grp (Rep idchar 11 (Some 11) True)) (Rep Dot 0 None True))"

text \<open>\<^verbatim>\<open>(?:embed\/)([0-9A-Za-z_-]{11})\<close>\<close>

definition pattern_embed :: rx where
  "pattern_embed = Seq (Lit (ustr ''embed/'')) (Grp (Rep idchar 11 (Some 11) True))"

text \<open>\<^verbatim>\<open>(?:youtu\.be\/)([0-9A-Za-z_-]{11})\<close>\<close>

definition pattern_short :: rx where
  "pattern_short = Seq (Lit (ustr ''youtu.be/'')) (Grp (Rep idchar 11 (Some 11) True))"

definition patterns :: "rx list" where
  "patterns = [pattern_watch, pattern_embed, pattern_short]"

text \<open>The loop over the patterns: the first pattern that matches returns its group 1.\<close>

fun first_match :: "rx list \<Rightarrow> str \<Rightarrow> mstate option" where
  "first_match [] url = None"
| "first_match (pat # pats) url =
     (case re_search no_flags pat url of Some m \<Rightarrow> Some m | None \<Rightarrow> first_match pats url)"

text \<open>
  The result is \<open>Inr None\<close> where the source returns \<^verbatim>\<open>None\<close>, \<open>Inr (Some v)\<close> where it
  returns a string, and \<open>Inl (ValueError msg)\<close> where it raises.
\<close>

definition get_video_id :: "str \<Rightarrow> error + str option" where
  "get_video_id url =
     (if url = [] \<or> strip url = [] then Inr None
      else case first_match patterns url of
             Some m \<Rightarrow> Inr (group1 m)
           | None \<Rightarrow>
               if length (strip url) = 11 then Inr (Some (strip url))
               else Inl (ValueError (ustr ''Could not extract video ID from: '' @ url)))"

section \<open>parse_article_response\<close>

text \<open>\<^verbatim>\<open>re.MULTILINE\<close> and \<^verbatim>\<open>re.MULTILINE | re.DOTALL\<close>.\<close>

definition multi :: flags where
  "multi = Flags True False"

definition multi_dotall :: flags where
  "multi_dotall = Flags True True"

text \<open>\<^verbatim>\<open>^TITLE:\s*(.+?)$\<close>, searched, and \<^verbatim>\<open>^TITLE:\s*.+?$\<close>, substituted.\<close>

definition title_rx :: rx where
  "title_rx =
     Seq Bol (Seq (Lit (ustr ''TITLE:''))
       (Seq (Rep Space 0 None True) (Seq (Grp (Rep Dot 1 None False)) Eol)))"

definition title_sub_rx :: rx where
  "title_sub_rx =
     Seq Bol (Seq (Lit (ustr ''TITLE:''))
       (Seq (Rep Space 0 None True) (Seq (Rep Dot 1 None False) Eol)))"

text \<open>\<^verbatim>\<open>HASHTAGS:\s*(.+?)$\<close>, searched, and \<^verbatim>\<open>HASHTAGS:\s*.+?$\<close>, substituted.\<close>

definition hashtags_rx :: rx where
  "hashtags_rx =
     Seq (Lit (ustr ''HASHTAGS:''))
       (Seq (Rep Space 0 None True) (Seq (Grp (Rep Dot 1 None False)) Eol))"

definition hashtags_sub_rx :: rx where
  "hashtags_sub_rx =
     Seq (Lit (ustr ''HASHTAGS:''))
       (Seq (Rep Space 0 None True) (Seq (Rep Dot 1 None False) Eol))"

text \<open>
  \<^verbatim>\<open>datetime.now()\<close> is an input of the model. \<^verbatim>\<open>strftime('%Y%m%d_%H%M%S')\<close> writes the
  year in four digits (the years 1000 to 9999) and the other fields in two.
\<close>

record datetime =
  year :: nat
  month :: nat
  day :: nat
  hour :: nat
  minute :: nat
  second :: nat

definition digit :: "nat \<Rightarrow> codepoint" where
  "digit n = 48 + n mod 10"

definition strftime_stamp :: "datetime \<Rightarrow> str" where
  "strftime_stamp d =
     [digit (year d div 1000), digit (year d div 100), digit (year d div 10), digit (year d)] @
     [digit (month d div 10), digit (month d)] @ [digit (day d div 10), digit (day d)] @
     ustr ''_'' @
     [digit (hour d div 10), digit (hour d)] @ [digit (minute d div 10), digit (minute d)] @
     [digit (second d div 10), digit (second d)]"

text \<open>
  The three steps of the function, in the order of the source: the title, the hashtags,
  the default title. The result is the tuple \<^verbatim>\<open>(title, content, hashtags)\<close>; \<open>Inl\<close> is the
  \<^verbatim>\<open>AttributeError\<close> that \<^verbatim>\<open>.strip()\<close> raises on a group that is \<^verbatim>\<open>None\<close>.
\<close>

definition extract_title :: "str \<Rightarrow> error + (str option \<times> str)" where
  "extract_title response =
     (case re_search multi title_rx response of
        None \<Rightarrow> Inr (None, response)
      | Some title_match \<Rightarrow>
          (case group1 title_match of
             None \<Rightarrow> Inl AttributeError
           | Some g \<Rightarrow> Inr (Some (strip g), strip (re_sub multi title_sub_rx [] response))))"

definition extract_hashtags :: "str \<Rightarrow> str \<Rightarrow> error + (str list \<times> str)" where
  "extract_hashtags response content =
     (case re_search multi_dotall hashtags_rx response of
        None \<Rightarrow> Inr ([], content)
      | Some hashtags_match \<Rightarrow>
          (case group1 hashtags_match of
             None \<Rightarrow> Inl AttributeError
           | Some g \<Rightarrow>
               (let hashtags_text = strip g
                in Inr (map strip (filter (\<lambda>tag. strip tag \<noteq> []) (split hashtags_text)),
                        strip (re_sub multi_dotall hashtags_sub_rx [] content)))))"

definition parse_article_response :: "datetime \<Rightarrow> str \<Rightarrow> error + (str \<times> str \<times> str list)" where
  "parse_article_response now response =
     (case extract_title response of
        Inl e \<Rightarrow> Inl e
      | Inr (title, content) \<Rightarrow>
          (case extract_hashtags response content of
             Inl e \<Rightarrow> Inl e
           | Inr (hashtags, content') \<Rightarrow>
               Inr (case title of
                      None \<Rightarrow> ustr ''Article_'' @ strftime_stamp now
                    | Some t \<Rightarrow> if t = [] then ustr ''Article_'' @ strftime_stamp now else t,
                    content', hashtags)))"

section \<open>sanitize_filename\<close>

text \<open>The class \<^verbatim>\<open>[<>:"/\\|?*]\<close> and the pattern \<^verbatim>\<open>\s+\<close>.\<close>

definition invalid_chars :: atom where
  "invalid_chars = Rng [(60, 60), (62, 62), (58, 58), (34, 34), (47, 47), (92, 92), (124, 124), (63, 63), (42, 42)]"

definition sanitize_filename :: "str \<Rightarrow> str" where
  "sanitize_filename title =
     (let filename = re_sub no_flags (One invalid_chars) [] title;
          filename = re_sub no_flags (Rep Space 1 None True) (ustr ''_'') filename
      in if 100 < length filename then take 100 filename else filename)"

section \<open>main\<close>












section \<open>Explicit scanners used in the proofs\<close>

text \<open>
  The functions of this section are not part of the program. They say in plain recursion
  what the program's patterns find, and the lemmas after them prove that the matcher
  finds exactly that.
\<close>

definition idc :: "codepoint \<Rightarrow> bool" where
  "idc c \<longleftrightarrow> (48 \<le> c \<and> c \<le> 57) \<or> (65 \<le> c \<and> c \<le> 90) \<or> (97 \<le> c \<and> c \<le> 122) \<or> c = 95 \<or> c = 45"

definition id_at :: "str \<Rightarrow> str \<Rightarrow> str option" where
  "id_at w r = (case strip_prefix w r of None \<Rightarrow> None
                | Some t \<Rightarrow> if 11 \<le> length (takeWhile idc t) then Some (take 11 t) else None)"

definition watch_at :: "str \<Rightarrow> str option" where
  "watch_at r = (case id_at (ustr ''v='') r of Some v \<Rightarrow> Some v | None \<Rightarrow> id_at (ustr ''/'') r)"

fun scan :: "(str \<Rightarrow> 'a option) \<Rightarrow> str \<Rightarrow> 'a option" where
  "scan h [] = h []"
| "scan h (c # cs) = (case h (c # cs) of Some v \<Rightarrow> Some v | None \<Rightarrow> scan h cs)"

definition first_of :: "'a list \<Rightarrow> 'a option" where
  "first_of xs = (case xs of [] \<Rightarrow> None | x # _ \<Rightarrow> Some x)"

definition vid_scan :: "str \<Rightarrow> str option" where
  "vid_scan url =
     (case scan watch_at url of Some v \<Rightarrow> Some v
      | None \<Rightarrow> (case scan (id_at (ustr ''embed/'')) url of Some v \<Rightarrow> Some v
                 | None \<Rightarrow> scan (id_at (ustr ''youtu.be/'')) url))"

definition nl :: "codepoint \<Rightarrow> bool" where
  "nl c \<longleftrightarrow> c \<noteq> 10"

definition line_at :: "bool \<Rightarrow> str \<Rightarrow> (str \<times> str) option" where
  "line_at d r =
     (case r of [] \<Rightarrow> None
      | c # cs \<Rightarrow> if c = 10 \<and> \<not> d then None else Some (c # takeWhile nl cs, dropWhile nl cs))"

fun ws_first :: "(str \<Rightarrow> 'a option) \<Rightarrow> str \<Rightarrow> 'a option" where
  "ws_first h [] = h []"
| "ws_first h (c # cs) =
     (if isspace c then (case ws_first h cs of Some x \<Rightarrow> Some x | None \<Rightarrow> h (c # cs))
      else h (c # cs))"

fun ffirst :: "(str \<Rightarrow> 'a option) \<Rightarrow> str \<Rightarrow> nat list \<Rightarrow> 'a option" where
  "ffirst h t [] = None"
| "ffirst h t (k # ks) = (case h (drop k t) of Some x \<Rightarrow> Some x | None \<Rightarrow> ffirst h t ks)"

definition marker_at :: "bool \<Rightarrow> str \<Rightarrow> str \<Rightarrow> (str \<times> str) option" where
  "marker_at d w r =
     (case strip_prefix w r of None \<Rightarrow> None | Some t \<Rightarrow> ws_first (line_at d) t)"

fun pscan :: "(codepoint option \<Rightarrow> str \<Rightarrow> 'a option) \<Rightarrow> codepoint option \<Rightarrow> str \<Rightarrow> 'a option" where
  "pscan h p [] = h p []"
| "pscan h p (c # cs) = (case h p (c # cs) of Some v \<Rightarrow> Some v | None \<Rightarrow> pscan h (Some c) cs)"

fun psub :: "(codepoint option \<Rightarrow> str \<Rightarrow> str option) \<Rightarrow> str \<Rightarrow> codepoint option \<Rightarrow> nat \<Rightarrow> str \<Rightarrow> str" where
  "psub h repl p k [] = (if k = 0 \<and> h p [] \<noteq> None then repl else [])"
| "psub h repl p k (c # cs) =
     (if 0 < k then psub h repl (Some c) (k - 1) cs
      else case h p (c # cs) of
             None \<Rightarrow> c # psub h repl (Some c) 0 cs
           | Some r' \<Rightarrow>
               (let n = length (c # cs) - length r'
                in if n = 0 then repl @ c # psub h repl (Some c) 0 cs
                   else repl @ psub h repl (Some c) (n - 1) cs))"

definition title_at :: "codepoint option \<Rightarrow> str \<Rightarrow> (str \<times> str) option" where
  "title_at p r = (if p = None \<or> p = Some 10 then marker_at False (ustr ''TITLE:'') r else None)"

definition hashtags_at :: "codepoint option \<Rightarrow> str \<Rightarrow> (str \<times> str) option" where
  "hashtags_at p r = marker_at True (ustr ''HASHTAGS:'') r"

definition remove_title :: "str \<Rightarrow> str" where
  "remove_title s = psub (\<lambda>p r. map_option snd (title_at p r)) [] None 0 s"

definition remove_hashtags :: "str \<Rightarrow> str" where
  "remove_hashtags s = psub (\<lambda>p r. map_option snd (hashtags_at p r)) [] None 0 s"

definition invalid :: "codepoint \<Rightarrow> bool" where
  "invalid c \<longleftrightarrow> c \<in> {60, 62, 58, 34, 47, 92, 124, 63, 42}"

function collapse :: "str \<Rightarrow> str" where
  "collapse [] = []"
| "collapse (c # cs) = (if isspace c then 95 # collapse (dropWhile isspace cs) else c # collapse cs)"
  by pat_completeness auto
termination
  by (relation "measure length") (auto simp: le_imp_less_Suc length_dropWhile_le)

section \<open>Notions used to state the claims about main\<close>












section \<open>Lemmas about the matcher and the patterns\<close>

lemma atom_ok_idchar: "atom_ok f idchar = idc"
  by (rule ext) (auto simp: idchar_def idc_def)

lemma ms_rep_exact:
  "ms f (Rep a n (Some n) gr) (p, r, g) =
     (if n \<le> length (takeWhile (atom_ok f a) r)
      then [(if n = 0 then p else Some (r ! (n - 1)), drop n r, g)] else [])"
  by (auto simp: Let_def min_def)

lemma ms_grp_rep_exact:
  "ms f (Grp (Rep a n (Some n) gr)) (p, r, g) =
     (if n \<le> length (takeWhile (atom_ok f a) r)
      then [(if n = 0 then p else Some (r ! (n - 1)), drop n r, Some (take n r))] else [])"
proof -
  have "length (takeWhile (atom_ok f a) r) \<le> length r" by (rule length_takeWhile_le)
  then show ?thesis
    by (simp only: ms.simps(7) ms_rep_exact) (auto simp: min_def)
qed

lemma ms_star_greedy:
  "\<exists>p' r' ms'. ms f (Rep a 0 None True) (p, r, g) = (p', r', g) # ms'"
  by (simp add: Let_def)

lemma ms_star_group: "m \<in> set (ms f (Rep a lo hi gr) (p, r, g)) \<Longrightarrow> group1 m = g"
  by (auto simp: Let_def group1_def split: if_splits)

lemma first_of_append:
  "first_of (xs @ ys) = (case first_of xs of Some x \<Rightarrow> Some x | None \<Rightarrow> first_of ys)"
  by (cases xs) (auto simp: first_of_def)

lemma map_option_orelse:
  "map_option f (case x of Some v \<Rightarrow> Some v | None \<Rightarrow> y)
     = (case map_option f x of Some v \<Rightarrow> Some v | None \<Rightarrow> map_option f y)"
  by (cases x) auto

lemma first_of_star:
  "map_option group1 (first_of (ms f (Rep a 0 None True) (p, r, g))) = Some g"
  using ms_star_greedy[of f a p r g] by (auto simp: first_of_def group1_def)

lemma first_of_lit_id:
  "map_option group1 (first_of (ms f (Seq (Lit w) (Grp (Rep idchar 11 (Some 11) True))) (p, r, None)))
     = map_option Some (id_at w r)"
  by (simp add: ms_grp_rep_exact first_of_def id_at_def atom_ok_idchar group1_def
           split: option.splits del: ms.simps(7,8))

lemma ms_seq_lit:
  "ms f (Seq (Lit w) b) (p, r, g) =
     (case strip_prefix w r of None \<Rightarrow> []
      | Some t \<Rightarrow> ms f b (if w = [] then p else Some (last w), t, g))"
  by (simp split: option.splits)

lemma ms_seq_grp_exact:
  "ms f (Seq (Grp (Rep a n (Some n) gr)) b) (p, r, g) =
     (if n \<le> length (takeWhile (atom_ok f a) r)
      then ms f b (if n = 0 then p else Some (r ! (n - 1)), drop n r, Some (take n r)) else [])"
  by (simp only: ms.simps(5) ms_grp_rep_exact) simp

lemma first_of_lit_id_star:
  "map_option group1 (first_of (ms f
       (Seq (Lit w) (Seq (Grp (Rep idchar 11 (Some 11) True)) (Rep a 0 None True))) (p, r, None)))
     = map_option Some (id_at w r)"
  by (simp add: ms_seq_lit ms_seq_grp_exact atom_ok_idchar first_of_star id_at_def
        first_of_def[of "[]"] split: option.splits del: ms.simps)

lemma first_of_watch:
  "map_option group1 (first_of (ms no_flags pattern_watch (p, r, None)))
     = map_option Some (watch_at r)"
proof -
  have "ms no_flags pattern_watch (p, r, None) =
      ms no_flags (Seq (Lit (ustr ''v='')) (Seq (Grp (Rep idchar 11 (Some 11) True)) (Rep Dot 0 None True))) (p, r, None)
    @ ms no_flags (Seq (Lit (ustr ''/'')) (Seq (Grp (Rep idchar 11 (Some 11) True)) (Rep Dot 0 None True))) (p, r, None)"
    by (simp add: pattern_watch_def del: ms.simps(2,7,8))
  then show ?thesis
    by (simp only: first_of_append map_option_orelse first_of_lit_id_star watch_at_def)
qed

lemma search_from_scan:
  assumes "\<And>p r. map_option group1 (first_of (ms f rx (p, r, None))) = map_option Some (h r)"
  shows "map_option group1 (search_from f rx p s) = map_option Some (scan h s)"
proof (induction s arbitrary: p)
  case Nil
  show ?case using assms[of p "[]"] by (auto simp: first_of_def split: list.splits)
next
  case (Cons c cs)
  show ?case using assms[of p "c # cs"] Cons.IH[of "Some c"]
    by (auto simp: first_of_def split: list.splits option.splits)
qed

lemma search_watch:
  "map_option group1 (re_search no_flags pattern_watch s) = map_option Some (scan watch_at s)"
  unfolding re_search_def by (rule search_from_scan) (rule first_of_watch)

lemma search_embed:
  "map_option group1 (re_search no_flags pattern_embed s) = map_option Some (scan (id_at (ustr ''embed/'')) s)"
  unfolding re_search_def pattern_embed_def by (rule search_from_scan) (rule first_of_lit_id)

lemma search_short:
  "map_option group1 (re_search no_flags pattern_short s) = map_option Some (scan (id_at (ustr ''youtu.be/'')) s)"
  unfolding re_search_def pattern_short_def by (rule search_from_scan) (rule first_of_lit_id)


lemma first_match_patterns:
  "map_option group1 (first_match patterns url) = map_option Some (vid_scan url)"
proof -
  have "map_option group1 (first_match patterns url) =
     (case map_option group1 (re_search no_flags pattern_watch url) of Some v \<Rightarrow> Some v
      | None \<Rightarrow> (case map_option group1 (re_search no_flags pattern_embed url) of Some v \<Rightarrow> Some v
                 | None \<Rightarrow> map_option group1 (re_search no_flags pattern_short url)))"
    by (simp add: patterns_def split: option.splits)
  then show ?thesis
    by (simp only: search_watch search_embed search_short vid_scan_def map_option_orelse)
qed

lemma get_video_id_scan:
  "get_video_id url =
     (if strip url = [] then Inr None
      else case vid_scan url of
             Some v \<Rightarrow> Inr (Some v)
           | None \<Rightarrow> if length (strip url) = 11 then Inr (Some (strip url))
                     else Inl (ValueError (ustr ''Could not extract video ID from: '' @ url)))"
proof -
  have e: "url = [] \<Longrightarrow> strip url = []" by (simp add: strip_def)
  show ?thesis
    using first_match_patterns[of url] e
    by (cases "first_match patterns url"; cases "vid_scan url") (auto simp: get_video_id_def)
qed

lemma strip_prefix_Some: "strip_prefix w r = Some t \<longleftrightarrow> r = w @ t"
  by (induction w r rule: strip_prefix.induct) auto

lemma id_at_Some:
  "id_at w r = Some v \<longleftrightarrow>
     (\<exists>rest. r = w @ v @ rest \<and> length v = 11 \<and> list_all idc v)"
proof
  assume "id_at w r = Some v"
  then obtain t where t: "r = w @ t" "11 \<le> length (takeWhile idc t)" "v = take 11 t"
    by (auto simp: id_at_def strip_prefix_Some split: option.splits if_splits)
  have len: "11 \<le> length t" using t(2) length_takeWhile_le[of idc t] by simp
  have "take 11 t = take 11 (takeWhile idc t)"
    using t(2) by (metis append_eq_conv_conj takeWhile_dropWhile_id take_append take_all_iff
        diff_is_0_eq' take_0 append_Nil2)
  then have "set v \<subseteq> set (takeWhile idc t)" using t(3) by (metis set_take_subset)
  then have "list_all idc v" by (auto simp: list_all_iff dest: set_takeWhileD)
  moreover have "r = w @ v @ drop 11 t" using t by simp
  moreover have "length v = 11" using t(3) len by simp
  ultimately show "\<exists>rest. r = w @ v @ rest \<and> length v = 11 \<and> list_all idc v" by blast
next
  assume "\<exists>rest. r = w @ v @ rest \<and> length v = 11 \<and> list_all idc v"
  then obtain rest where r: "r = w @ v @ rest" "length v = 11" "list_all idc v" by blast
  have sp: "strip_prefix w r = Some (v @ rest)" using r(1) by (simp add: strip_prefix_Some)
  have "takeWhile idc (v @ rest) = v @ takeWhile idc rest"
    using r(3) by (simp add: list_all_iff)
  then show "id_at w r = Some v" using sp r(2) by (simp add: id_at_def)
qed

lemma scan_None_iff: "scan h s = None \<longleftrightarrow> (\<forall>a b. s = a @ b \<longrightarrow> h b = None)"
proof (induction s)
  case Nil
  show ?case by simp
next
  case (Cons c cs)
  show ?case
  proof
    assume n: "scan h (c # cs) = None"
    then have h: "h (c # cs) = None" and t: "\<forall>a b. cs = a @ b \<longrightarrow> h b = None"
      using Cons.IH by (auto split: option.splits)
    show "\<forall>a b. c # cs = a @ b \<longrightarrow> h b = None"
    proof (intro allI impI)
      fix a b assume "c # cs = a @ b"
      then show "h b = None" using h t by (cases a) auto
    qed
  next
    assume a: "\<forall>a b. c # cs = a @ b \<longrightarrow> h b = None"
    then have "h (c # cs) = None" by (metis append_Nil)
    moreover have "\<forall>a b. cs = a @ b \<longrightarrow> h b = None" using a by (metis append_Cons)
    ultimately show "scan h (c # cs) = None" using Cons.IH by simp
  qed
qed

lemma scan_Some: "scan h s = Some v \<Longrightarrow> \<exists>a b. s = a @ b \<and> h b = Some v"
proof (induction s)
  case Nil
  then show ?case by simp
next
  case (Cons c cs)
  show ?case
  proof (cases "h (c # cs)")
    case None
    then have "scan h cs = Some v" using Cons.prems by simp
    then obtain a b where "cs = a @ b" "h b = Some v" using Cons.IH by blast
    then have "c # cs = (c # a) @ b \<and> h b = Some v" by simp
    then show ?thesis by blast
  next
    case (Some x)
    then have "h (c # cs) = Some v" using Cons.prems by simp
    then show ?thesis by (metis append_Nil)
  qed
qed

lemma scan_skip:
  "(\<And>a b. pre = a @ b \<Longrightarrow> b \<noteq> [] \<Longrightarrow> h (b @ s) = None) \<Longrightarrow> scan h (pre @ s) = scan h s"
proof (induction pre)
  case Nil
  show ?case by simp
next
  case (Cons c cs)
  have "h ((c # cs) @ s) = None" using Cons.prems[of "[]" "c # cs"] by simp
  moreover have "scan h (cs @ s) = scan h s"
  proof (rule Cons.IH)
    fix a b assume "cs = a @ b" "b \<noteq> []"
    then show "h (b @ s) = None" using Cons.prems[of "c # a" b] by simp
  qed
  ultimately show ?case by simp
qed

lemma strip_Nil_iff: "strip s = [] \<longleftrightarrow> list_all isspace s"
proof -
  have "strip s = [] \<longleftrightarrow> (\<forall>x\<in>set (dropWhile isspace s). isspace x)"
    by (simp add: strip_def dropWhile_eq_Nil_conv)
  also have "\<dots> \<longleftrightarrow> dropWhile isspace s = []"
    by (metis hd_dropWhile hd_in_set list.set(1) empty_iff)
  also have "\<dots> \<longleftrightarrow> list_all isspace s"
    by (simp add: dropWhile_eq_Nil_conv list_all_iff)
  finally show ?thesis .
qed

lemma length_strip: "length (strip s) \<le> length s"
proof -
  have "length (strip s) \<le> length (dropWhile isspace s)"
    unfolding strip_def using length_dropWhile_le[of isspace "rev (dropWhile isspace s)"] by simp
  also have "\<dots> \<le> length s" by (rule length_dropWhile_le)
  finally show ?thesis .
qed

lemma idc_not_space: "idc c \<Longrightarrow> \<not> isspace c"
  by (auto simp: idc_def isspace_def)

lemma strip_id: "s \<noteq> [] \<Longrightarrow> \<not> isspace (hd s) \<Longrightarrow> \<not> isspace (last s) \<Longrightarrow> strip s = s"
proof -
  assume a: "s \<noteq> []" "\<not> isspace (hd s)" "\<not> isspace (last s)"
  have 1: "dropWhile isspace s = s" using a(1,2) by (cases s) auto
  have "\<not> isspace (hd (rev s))" using a(1,3) by (simp add: hd_rev)
  moreover have "rev s \<noteq> []" using a(1) by simp
  ultimately have 2: "dropWhile isspace (rev s) = rev s"
    by (metis dropWhile.simps(2) list.collapse)
  show ?thesis by (simp add: strip_def 1 2)
qed

lemma id_at_short: "length r < length w + 11 \<Longrightarrow> id_at w r = None"
proof (rule ccontr)
  assume l: "length r < length w + 11" and "id_at w r \<noteq> None"
  then obtain v where "id_at w r = Some v" by auto
  then obtain rest where "r = w @ v @ rest" "length v = 11" using id_at_Some by blast
  then show False using l by simp
qed

lemma vid_scan_short: "length s < 12 \<Longrightarrow> vid_scan s = None"
proof -
  assume l: "length s < 12"
  have "\<And>w. w \<noteq> [] \<Longrightarrow> scan (id_at w) s = None"
  proof -
    fix w :: str assume w: "w \<noteq> []"
    show "scan (id_at w) s = None"
      unfolding scan_None_iff
    proof (intro allI impI)
      fix a b assume "s = a @ b"
      then have "length b < length w + 11" using l w by (cases w) auto
      then show "id_at w b = None" by (rule id_at_short)
    qed
  qed
  note n = this
  have "scan watch_at s = None"
    unfolding scan_None_iff
  proof (intro allI impI)
    fix a b assume "s = a @ b"
    then have "length b < 12" using l by simp
    then show "watch_at b = None"
      by (simp add: watch_at_def id_at_short ustr_def)
  qed
  then show ?thesis by (simp add: vid_scan_def n ustr_def)
qed

lemma watch_at_Cons:
  "watch_at (c # cs) =
     (if c = 47 then (if 11 \<le> length (takeWhile idc cs) then Some (take 11 cs) else None)
      else if c = 118 then
        (case cs of [] \<Rightarrow> None
         | d # t \<Rightarrow> if d = 61 \<and> 11 \<le> length (takeWhile idc t) then Some (take 11 t) else None)
      else None)"
  by (auto simp: watch_at_def id_at_def ustr_def split: list.splits)

lemma watch_at_Nil: "watch_at [] = None"
  by (simp add: watch_at_def id_at_def ustr_def)


lemma ustr_v: "ustr ''v='' = [118, 61]" by (simp add: ustr_def)
lemma ustr_slash: "ustr ''/'' = [47]" by (simp add: ustr_def)

lemma sep_not_blank:
  "sep = ustr ''v='' \<or> sep = ustr ''/'' \<Longrightarrow> \<not> list_all isspace (a @ sep @ b)"
  by (auto simp: ustr_v ustr_slash isspace_def)

lemma not_blank: "c \<in> set s \<Longrightarrow> \<not> isspace c \<Longrightarrow> strip s \<noteq> []"
  by (auto simp: strip_Nil_iff list_all_iff)

lemma watch_at_sep:
  assumes "sep = ustr ''v='' \<or> sep = ustr ''/''" "length X = 11" "list_all idc X"
  shows "watch_at (sep @ X @ rest) = Some X"
proof -
  have a: "id_at sep (sep @ X @ rest) = Some X"
    using assms(2,3) unfolding id_at_Some by blast
  show ?thesis
  proof (cases "sep = ustr ''v=''")
    case True
    then show ?thesis using a by (simp add: watch_at_def)
  next
    case False
    then have s: "sep = ustr ''/''" using assms(1) by simp
    have "id_at (ustr ''v='') (sep @ X @ rest) = None"
      unfolding s by (simp add: id_at_def ustr_def)
    then show ?thesis using a s by (simp add: watch_at_def)
  qed
qed

lemma watch_at_Some:
  assumes "watch_at r = Some v"
  shows "\<exists>sep rest. (sep = ustr ''v='' \<or> sep = ustr ''/'') \<and> r = sep @ v @ rest \<and>
           length v = 11 \<and> list_all idc v"
proof -
  have "id_at (ustr ''v='') r = Some v \<or> id_at (ustr ''/'') r = Some v"
    using assms unfolding watch_at_def by (cases "id_at (ustr ''v='') r") simp_all
  then show ?thesis
  proof
    assume "id_at (ustr ''v='') r = Some v"
    then obtain rest where "r = ustr ''v='' @ v @ rest" "length v = 11" "list_all idc v"
      using iffD1[OF id_at_Some] by blast
    then show ?thesis by blast
  next
    assume "id_at (ustr ''/'') r = Some v"
    then obtain rest where "r = ustr ''/'' @ v @ rest" "length v = 11" "list_all idc v"
      using iffD1[OF id_at_Some] by blast
    then show ?thesis by blast
  qed
qed

lemma scan_cons_hit: "s \<noteq> [] \<Longrightarrow> h s = Some v \<Longrightarrow> scan h s = Some v"
  by (cases s) auto

lemma scan_id_split:
  assumes "scan (id_at (w @ ustr ''/'')) url \<noteq> None"
  shows "\<exists>v a b. url = a @ b \<and> id_at (w @ ustr ''/'') b = Some v"
proof -
  from assms obtain v where "scan (id_at (w @ ustr ''/'')) url = Some v" by auto
  from scan_Some[OF this] obtain a b where ab: "url = a @ b" "id_at (w @ ustr ''/'') b = Some v"
    by blast
  then show ?thesis by blast
qed

lemma id_at_slash_split:
  assumes "id_at (w @ ustr ''/'') b = Some v"
  shows "\<exists>rest. b = (w @ ustr ''/'') @ v @ rest \<and> length v = 11 \<and> list_all idc v"
  using iffD1[OF id_at_Some, OF assms] by blast

lemma watch_at_slash:
  assumes "length v = 11" "list_all idc v"
  shows "watch_at (ustr ''/'' @ v @ rest) = Some v"
  by (rule watch_at_sep) (use assms in simp_all)

lemma scan_watch_hit:
  assumes "url = a @ b" "watch_at b = Some v"
  shows "scan watch_at url \<noteq> None"
proof
  assume "scan watch_at url = None"
  then have "\<forall>a b. url = a @ b \<longrightarrow> watch_at b = None" by (simp only: scan_None_iff)
  then have "watch_at b = None" using assms(1) by blast
  then show False using assms(2) by simp
qed

lemma scan_id_watch:
  assumes "scan (id_at (w @ ustr ''/'')) url \<noteq> None"
  shows "scan watch_at url \<noteq> None"
proof -
  from scan_id_split[OF assms] obtain v a b where ab: "url = a @ b" "id_at (w @ ustr ''/'') b = Some v"
    by blast
  from id_at_slash_split[OF ab(2)] obtain rest where
    r: "b = (w @ ustr ''/'') @ v @ rest" "length v = 11" "list_all idc v" by blast
  have "url = (a @ w) @ (ustr ''/'' @ v @ rest)" using ab(1) r(1) by simp
  moreover have "watch_at (ustr ''/'' @ v @ rest) = Some v"
    using r(2,3) by (rule watch_at_slash)
  ultimately show ?thesis by (rule scan_watch_hit)
qed

lemma vid_scan_watch: "vid_scan url = scan watch_at url"
proof (cases "scan watch_at url")
  case (Some v)
  then show ?thesis by (simp add: vid_scan_def)
next
  case None
  have e: "ustr ''embed/'' = ustr ''embed'' @ ustr ''/''" by (simp add: ustr_def)
  have y: "ustr ''youtu.be/'' = ustr ''youtu.be'' @ ustr ''/''" by (simp add: ustr_def)
  have "scan (id_at (ustr ''embed/'')) url = None"
    using scan_id_watch[of "ustr ''embed''" url] None unfolding e by blast
  moreover have "scan (id_at (ustr ''youtu.be/'')) url = None"
    using scan_id_watch[of "ustr ''youtu.be''" url] None unfolding y by blast
  ultimately show ?thesis using None by (simp add: vid_scan_def)
qed

lemma example_scan:
  "get_video_id (ustr ''https://example.com/abcdefghijk'') = Inr (Some (ustr ''abcdefghijk''))"
proof -
  have "scan watch_at (ustr ''https://example.com/abcdefghijk'') = Some (ustr ''abcdefghijk'')"
    by (simp add: ustr_def watch_at_Cons watch_at_Nil idc_def)
  moreover have "strip (ustr ''https://example.com/abcdefghijk'') \<noteq> []"
    by (simp add: strip_Nil_iff ustr_def isspace_def)
  ultimately show ?thesis by (simp add: get_video_id_scan vid_scan_watch)
qed

lemma first_match_None: "first_match patterns url = None \<longleftrightarrow> scan watch_at url = None"
  using first_match_patterns[of url]
  by (cases "first_match patterns url"; cases "scan watch_at url") (simp_all add: vid_scan_watch)

lemma short_example:
  "get_video_id (ustr ''https://youtu.be/dQw4w9WgXcQ'') = Inr (Some (ustr ''dQw4w9WgXcQ''))"
proof -
  have "scan watch_at (ustr ''https://youtu.be/dQw4w9WgXcQ'') = Some (ustr ''dQw4w9WgXcQ'')"
    by (simp add: ustr_def watch_at_Cons watch_at_Nil idc_def)
  moreover have "strip (ustr ''https://youtu.be/dQw4w9WgXcQ'') \<noteq> []"
    by (simp add: strip_Nil_iff ustr_def isspace_def)
  ultimately show ?thesis by (simp add: get_video_id_scan vid_scan_watch)
qed

lemma short_example_match: "first_match patterns (ustr ''https://youtu.be/dQw4w9WgXcQ'') \<noteq> None"
  unfolding first_match_None by (simp add: ustr_def watch_at_Cons watch_at_Nil idc_def)

lemma hello_world:
  "get_video_id (ustr ''hello world'') = Inr (Some (ustr ''hello world''))"
proof -
  have "vid_scan (ustr ''hello world'') = None" by (rule vid_scan_short) (simp add: ustr_def)
  moreover have "strip (ustr ''hello world'') = ustr ''hello world''"
    by (rule strip_id) (simp_all add: ustr_def isspace_def)
  moreover have "length (ustr ''hello world'') = 11" by (simp add: ustr_def)
  ultimately show ?thesis by (auto simp: get_video_id_scan)
qed

lemma embed_example_match:
  "re_search no_flags pattern_embed (ustr ''embed/abcdefghijk'') \<noteq> None"
proof -
  have "scan (id_at (ustr ''embed/'')) (ustr ''embed/abcdefghijk'') \<noteq> None"
    by (simp add: ustr_def id_at_def idc_def)
  then show ?thesis using search_embed[of "ustr ''embed/abcdefghijk''"] by auto
qed

lemma idc_numeral:
  "idc (numeral k) \<longleftrightarrow> (48 \<le> (numeral k :: nat) \<and> (numeral k :: nat) \<le> 57) \<or>
     (65 \<le> (numeral k :: nat) \<and> (numeral k :: nat) \<le> 90) \<or>
     (97 \<le> (numeral k :: nat) \<and> (numeral k :: nat) \<le> 122) \<or>
     (numeral k :: nat) = 95 \<or> (numeral k :: nat) = 45"
  by (simp add: idc_def)

lemma isspace_numeral:
  "isspace (numeral k) \<longleftrightarrow>
     (9 \<le> (numeral k :: nat) \<and> (numeral k :: nat) \<le> 13) \<or>
     (28 \<le> (numeral k :: nat) \<and> (numeral k :: nat) \<le> 32) \<or>
     (numeral k :: nat) = 133 \<or> (numeral k :: nat) = 160 \<or> (numeral k :: nat) = 5760 \<or>
     (8192 \<le> (numeral k :: nat) \<and> (numeral k :: nat) \<le> 8202) \<or>
     (numeral k :: nat) = 8232 \<or> (numeral k :: nat) = 8233 \<or> (numeral k :: nat) = 8239 \<or>
     (numeral k :: nat) = 8287 \<or> (numeral k :: nat) = 12288"
  by (simp add: isspace_def)

lemma id_run:
  assumes "length X = 11" "list_all idc X"
  shows "takeWhile idc (X @ r) = X @ takeWhile idc r" "take 11 (X @ r) = X" "strip X = X"
    "X \<noteq> []" "\<not> list_all isspace (p @ X)" "takeWhile idc X = X" "take 11 X = X"
proof -
  show "takeWhile idc X = X" using assms(2) by (simp add: list_all_iff)
  show "take 11 X = X" using assms(1) by simp
  show "takeWhile idc (X @ r) = X @ takeWhile idc r" using assms(2) by (simp add: list_all_iff)
  show "take 11 (X @ r) = X" using assms(1) by simp
  show ne: "X \<noteq> []" using assms(1) by auto
  have "idc (hd X)" "idc (last X)" using assms(2) ne by (auto simp: list_all_iff)
  then show "strip X = X" using ne by (simp add: strip_id idc_not_space)
  have "\<exists>c\<in>set X. \<not> isspace c" using ne assms(2) idc_not_space
    by (metis list_all_iff last_in_set)
  then show "\<not> list_all isspace (p @ X)" by (auto simp: list_all_iff)
qed

lemma watch_form:
  assumes "length X = 11" "list_all idc X"
  shows "get_video_id (ustr ''https://www.youtube.com/watch?v='' @ X) = Inr (Some X)"
proof -
  have "scan watch_at (ustr ''https://www.youtube.com/watch?v='' @ X) = Some X"
    by (simp add: ustr_def watch_at_Cons idc_numeral id_run(6,7)[OF assms] assms(1))
  then show ?thesis using id_run(5)[OF assms]
    by (simp add: get_video_id_scan vid_scan_watch strip_Nil_iff)
qed

lemma short_form:
  assumes "length X = 11" "list_all idc X"
  shows "get_video_id (ustr ''https://youtu.be/'' @ X) = Inr (Some X)"
proof -
  have "scan watch_at (ustr ''https://youtu.be/'' @ X) = Some X"
    by (simp add: ustr_def watch_at_Cons idc_numeral id_run(6,7)[OF assms] assms(1))
  then show ?thesis using id_run(5)[OF assms]
    by (simp add: get_video_id_scan vid_scan_watch strip_Nil_iff)
qed

lemma embed_form:
  assumes "length X = 11" "list_all idc X"
  shows "get_video_id (ustr ''https://www.youtube.com/embed/'' @ X) = Inr (Some X)"
proof -
  have "scan watch_at (ustr ''https://www.youtube.com/embed/'' @ X) = Some X"
    by (simp add: ustr_def watch_at_Cons idc_numeral id_run(6,7)[OF assms] assms(1))
  then show ?thesis using id_run(5)[OF assms]
    by (simp add: get_video_id_scan vid_scan_watch strip_Nil_iff)
qed



lemma takeWhile_stop: "\<not> P x \<Longrightarrow> takeWhile P (xs @ x # ys) = takeWhile P xs"
  by (induction xs) auto

lemma watch_at_Cons_nested:
  "watch_at (c # cs) =
     (if c = 47 then (if 11 \<le> length (takeWhile idc cs) then Some (take 11 cs) else None)
      else if c = 118 then
        (case cs of [] \<Rightarrow> None
         | d # t \<Rightarrow> if d = 61 then (if 11 \<le> length (takeWhile idc t) then Some (take 11 t) else None)
                   else None)
      else None)"
  by (simp add: watch_at_Cons split: list.splits)

lemma id_run_before_slash:
  "(if 11 \<le> length (takeWhile idc (xs @ 47 # t)) then Some (take 11 (xs @ 47 # t)) else None)
     = (if 11 \<le> length (takeWhile idc xs) then Some (take 11 xs) else None)"
proof -
  have n: "\<not> idc 47" by (simp add: idc_numeral)
  have tw: "takeWhile idc (xs @ 47 # t) = takeWhile idc xs"
    using n by (rule takeWhile_stop)
  have "11 \<le> length (takeWhile idc xs) \<Longrightarrow> take 11 (xs @ 47 # t) = take 11 xs"
    using length_takeWhile_le[of idc xs] by simp
  then show ?thesis unfolding tw by simp
qed

lemma watch_at_before_slash: "watch_at ((c # cs) @ 47 # t) = watch_at (c # cs)"
proof (cases cs)
  case Nil
  then show ?thesis by (simp add: watch_at_Cons idc_numeral)
next
  case (Cons d ds)
  have "watch_at (c # d # (ds @ 47 # t)) = watch_at (c # d # ds)"
    unfolding watch_at_Cons_nested[of c "d # (ds @ 47 # t)"] watch_at_Cons_nested[of c "d # ds"]
      list.case id_run_before_slash id_run_before_slash[of "d # ds" t, simplified append_Cons]
    by (rule refl)
  then show ?thesis using Cons by simp
qed

lemma scan_watch_before_slash:
  "scan watch_at pre = None \<Longrightarrow> scan watch_at (pre @ 47 # t) = scan watch_at (47 # t)"
proof (induction pre)
  case Nil
  show ?case by simp
next
  case (Cons c cs)
  then have w: "watch_at (c # cs) = None" and s: "scan watch_at cs = None"
    by (auto split: option.splits)
  have "watch_at ((c # cs) @ 47 # t) = None"
    using watch_at_before_slash[of c cs t] w by simp
  then show ?case using Cons.IH[OF s] by simp
qed

lemma embed_any_prefix:
  assumes "length X = 11" "list_all idc X" "re_search no_flags pattern_watch pre = None"
  shows "get_video_id (pre @ ustr ''/embed/'' @ X) = Inr (Some X)"
proof -
  have n: "scan watch_at pre = None" using search_watch[of pre] assms(3) by simp
  have e: "pre @ ustr ''/embed/'' @ X = pre @ 47 # (ustr ''embed/'' @ X)" by (simp add: ustr_def)
  have "scan watch_at (47 # (ustr ''embed/'' @ X)) = Some X"
    by (simp add: ustr_def watch_at_Cons idc_numeral id_run(6,7)[OF assms(1,2)] assms(1))
  then have "scan watch_at (pre @ ustr ''/embed/'' @ X) = Some X"
    unfolding e using scan_watch_before_slash[OF n] by simp
  then show ?thesis using id_run(5)[OF assms(1,2), of "pre @ ustr ''/embed/''"]
    by (simp add: get_video_id_scan vid_scan_watch strip_Nil_iff)
qed

lemma nocookie_prefix:
  "re_search no_flags pattern_watch (ustr ''https://www.youtube-nocookie.com'') = None"
proof -
  have "scan watch_at (ustr ''https://www.youtube-nocookie.com'') = None"
    by (simp add: ustr_def watch_at_Cons watch_at_Nil idc_numeral)
  then show ?thesis using search_watch[of "ustr ''https://www.youtube-nocookie.com''"] by simp
qed

lemma first_of_Nil: "first_of [] = None" by (simp add: first_of_def)
lemma first_of_Cons: "first_of (x # xs) = Some x" by (simp add: first_of_def)

lemma concat_all_Nil: "(\<And>x. x \<in> set xs \<Longrightarrow> F x = []) \<Longrightarrow> concat (map F xs) = []"
  by (induction xs) auto

lemma lazy_first:
  assumes "a \<le> n0" "n0 < b" "\<And>n. a \<le> n \<Longrightarrow> n < n0 \<Longrightarrow> F n = []" "F n0 = [x]"
  shows "first_of (concat (map F [a..<b])) = Some x"
proof -
  have "[a..<b] = [a..<n0] @ [n0..<b]"
    using upt_add_eq_append[of a n0 "b - n0"] assms(1,2) by simp
  then have "[a..<b] = [a..<n0] @ n0 # [Suc n0..<b]"
    using assms(2) by (simp add: upt_conv_Cons)
  then have "concat (map F [a..<b]) = concat (map F [a..<n0]) @ F n0 @ concat (map F [Suc n0..<b])"
    by simp
  moreover have "concat (map F [a..<n0]) = []"
    by (rule concat_all_Nil) (use assms(3) in auto)
  ultimately have "concat (map F [a..<b]) = x # concat (map F [Suc n0..<b])"
    using assms(4) by simp
  then show ?thesis by (simp only: first_of_Cons)
qed

lemma search_from_pscan:
  assumes "\<And>p r. map_option pr (first_of (ms f rx (p, r, None))) = h p r"
  shows "map_option pr (search_from f rx p s) = pscan h p s"
proof (induction s arbitrary: p)
  case Nil
  show ?case using assms[of p "[]"] by (auto simp: first_of_def split: list.splits)
next
  case (Cons c cs)
  show ?case using assms[of p "c # cs"] Cons.IH[of "Some c"]
    by (auto simp: first_of_def split: list.splits option.splits)
qed

lemma sub_from_psub:
  assumes "\<And>p r. map_option (\<lambda>m. fst (snd m)) (first_of (ms f rx (p, r, None))) = h p r"
  shows "sub_from f rx repl p k s = psub h repl p k s"
proof (induction s arbitrary: p k)
  case Nil
  show ?case using assms[of p "[]"] by (auto simp: first_of_def split: list.splits)
next
  case (Cons c cs)
  show ?case
  proof (cases "ms f rx (p, c # cs, None)")
    case Nil
    then have "h p (c # cs) = None" using assms[of p "c # cs"] by (simp add: first_of_def)
    then show ?thesis using Nil Cons.IH by simp
  next
    case (Cons m tl)
    obtain p' r' g' where m: "m = (p', r', g')" by (cases m) auto
    have "h p (c # cs) = Some r'" using assms[of p "c # cs"] Cons m by (simp add: first_of_def)
    then show ?thesis using Cons m Cons.IH by (simp add: Let_def)
  qed
qed


lemma eol_first:
  assumes "multiline f" and "Suc (length (takeWhile nl cs)) \<le> avail"
  shows "first_of (concat (map (\<lambda>n. ms f Eol (P n, drop n (c # cs), G n)) [1..<Suc avail]))
       = Some (P (Suc (length (takeWhile nl cs))), dropWhile nl cs, G (Suc (length (takeWhile nl cs))))"
proof (rule lazy_first[where ?n0.0 = "Suc (length (takeWhile nl cs))"])
  show "1 \<le> Suc (length (takeWhile nl cs))" by simp
  show "Suc (length (takeWhile nl cs)) < Suc avail" using assms(2) by simp
next
  fix n assume n: "1 \<le> n" "n < Suc (length (takeWhile nl cs))"
  then obtain k where k: "n = Suc k" "k < length (takeWhile nl cs)" by (cases n) auto
  have kl: "k < length cs" using k(2) length_takeWhile_le[of nl cs] by simp
  have "takeWhile nl cs ! k = cs ! k" using k(2) by (rule takeWhile_nth)
  moreover have "nl (takeWhile nl cs ! k)" using k(2) by (metis nth_mem set_takeWhileD)
  ultimately have "cs ! k \<noteq> 10" by (simp add: nl_def)
  moreover have "drop n (c # cs) = cs ! k # drop (Suc k) cs"
    using kl k(1) by (simp add: Cons_nth_drop_Suc)
  ultimately show "ms f Eol (P n, drop n (c # cs), G n) = []" using assms(1) by simp
next
  let ?j = "length (takeWhile nl cs)"
  have d: "drop (Suc ?j) (c # cs) = dropWhile nl cs" by (simp add: dropWhile_eq_drop)
  have "dropWhile nl cs = [] \<or> take 1 (dropWhile nl cs) = [10]"
  proof (cases "dropWhile nl cs")
    case Nil
    then show ?thesis by simp
  next
    case (Cons x xs)
    then have "\<not> nl x" by (metis hd_dropWhile list.sel(1) list.distinct(1))
    then show ?thesis using Cons by (simp add: nl_def)
  qed
  then show "ms f Eol (P (Suc ?j), drop (Suc ?j) (c # cs), G (Suc ?j))
      = [(P (Suc ?j), dropWhile nl cs, G (Suc ?j))]"
    unfolding d using assms(1) by auto
qed

lemma dot_avail:
  assumes "dotall f \<or> c \<noteq> 10"
  shows "Suc (length (takeWhile nl cs)) \<le> length (takeWhile (atom_ok f Dot) (c # cs))"
proof (cases "dotall f")
  case True
  then have "takeWhile (atom_ok f Dot) (c # cs) = c # cs" by simp
  then show ?thesis using length_takeWhile_le[of nl cs] by simp
next
  case False
  then have "atom_ok f Dot = nl" by (auto simp: nl_def)
  then show ?thesis using assms False by (simp add: nl_def)
qed

lemma dot_eol_plain:
  assumes "multiline f"
  shows "map_option snd (first_of (ms f (Seq (Rep Dot 1 None False) Eol) (p, r, g)))
       = map_option (\<lambda>(cap, rem). (rem, g)) (line_at (dotall f) r)"
proof (cases r)
  case Nil
  then show ?thesis by (simp add: line_at_def first_of_Nil)
next
  case (Cons c cs)
  show ?thesis
  proof (cases "dotall f \<or> c \<noteq> 10")
    case False
    then show ?thesis using Cons by (simp add: line_at_def first_of_Nil)
  next
    case True
    let ?a = "length (takeWhile (atom_ok f Dot) (c # cs))"
    have av: "Suc (length (takeWhile nl cs)) \<le> ?a" using True by (rule dot_avail)
    then have "\<not> ?a < 1" by arith
    then have "ms f (Seq (Rep Dot 1 None False) Eol) (p, c # cs, g)
        = concat (map (\<lambda>n. ms f Eol (if n = 0 then p else Some ((c # cs) ! (n - 1)), drop n (c # cs), g))
            [1..<Suc ?a])"
      by (simp add: Let_def comp_def del: upt_Suc takeWhile.simps drop_Suc_Cons ms.simps(4))
    then show ?thesis using Cons True eol_first[OF assms av]
      by (auto simp: line_at_def simp del: upt_Suc takeWhile.simps drop_Suc_Cons ms.simps)
  qed
qed

lemma dot_eol_group:
  assumes "multiline f"
  shows "map_option snd (first_of (ms f (Seq (Grp (Rep Dot 1 None False)) Eol) (p, r, g)))
       = map_option (\<lambda>(cap, rem). (rem, Some cap)) (line_at (dotall f) r)"
proof (cases r)
  case Nil
  then show ?thesis by (simp add: line_at_def first_of_Nil)
next
  case (Cons c cs)
  show ?thesis
  proof (cases "dotall f \<or> c \<noteq> 10")
    case False
    then show ?thesis using Cons by (simp add: line_at_def first_of_Nil)
  next
    case True
    let ?a = "length (takeWhile (atom_ok f Dot) (c # cs))"
    have av: "Suc (length (takeWhile nl cs)) \<le> ?a" using True by (rule dot_avail)
    then have "\<not> ?a < 1" by arith
    then have "ms f (Seq (Grp (Rep Dot 1 None False)) Eol) (p, c # cs, g)
        = concat (map (\<lambda>n. ms f Eol (if n = 0 then p else Some ((c # cs) ! (n - 1)), drop n (c # cs),
              Some (take (length (c # cs) - length (drop n (c # cs))) (c # cs))))
            [1..<Suc ?a])"
      by (simp add: Let_def comp_def del: upt_Suc takeWhile.simps drop_Suc_Cons ms.simps(4))
    moreover have "take (length (c # cs) - length (drop (Suc (length (takeWhile nl cs))) (c # cs))) (c # cs)
        = c # takeWhile nl cs"
      using length_takeWhile_le[of nl cs] takeWhile_eq_take[of nl cs] by simp
    ultimately show ?thesis using Cons True
        eol_first[OF assms av, where G = "\<lambda>n. Some (take (length (c # cs) - length (drop n (c # cs))) (c # cs))"]
      by (auto simp: line_at_def simp del: upt_Suc takeWhile.simps drop_Suc_Cons ms.simps length_drop)
  qed
qed


lemma orelse_None: "(case x of Some v \<Rightarrow> Some v | None \<Rightarrow> None) = x"
  by (cases x) auto

lemma ffirst_append:
  "ffirst h t (ks @ ks') = (case ffirst h t ks of Some x \<Rightarrow> Some x | None \<Rightarrow> ffirst h t ks')"
  by (induction ks) (auto split: option.splits)

lemma ffirst_map_Suc: "ffirst h (c # cs) (map Suc ks) = ffirst h cs ks"
  by (induction ks) (auto split: option.splits)

lemma ffirst_single: "ffirst h t [k] = h (drop k t)"
  by (cases "h (drop k t)") simp_all

lemma ffirst_ws: "ffirst h t (rev [0..<Suc (length (takeWhile isspace t))]) = ws_first h t"
proof (induction t)
  case Nil
  show ?case by (simp add: ffirst_single del: ffirst.simps)
next
  case (Cons c cs)
  show ?case
  proof (cases "isspace c")
    case False
    then show ?thesis by (simp add: ffirst_single del: ffirst.simps)
  next
    case True
    let ?m = "length (takeWhile isspace cs)"
    have "[0..<Suc (Suc ?m)] = 0 # map Suc [0..<Suc ?m]"
      by (simp only: map_Suc_upt) (simp add: upt_conv_Cons del: upt_Suc)
    then have "rev [0..<Suc (Suc ?m)] = map Suc (rev [0..<Suc ?m]) @ [0]"
      by (simp only: rev.simps rev_map)
    then have "ffirst h (c # cs) (rev [0..<Suc (Suc ?m)])
        = (case ffirst h cs (rev [0..<Suc ?m]) of Some x \<Rightarrow> Some x | None \<Rightarrow> h (c # cs))"
      by (simp only: ffirst_append ffirst_map_Suc ffirst_single drop_0)
    then show ?thesis using True Cons.IH by simp
  qed
qed

lemma ffirst_concat:
  assumes "\<And>p r. map_option snd (first_of (ms f R (p, r, g))) = h r"
  shows "map_option snd (first_of (concat (map (\<lambda>k. ms f R (P k, drop k t, g)) ks))) = ffirst h t ks"
proof (induction ks)
  case Nil
  show ?case by (simp add: first_of_Nil)
next
  case (Cons k ks)
  show ?case using Cons.IH assms[of "P k" "drop k t"]
    by (simp add: first_of_append map_option_orelse split: option.splits del: ms.simps)
qed

lemma atom_ok_Space: "atom_ok f Space = isspace"
  by (rule ext) simp

lemma ws_then:
  assumes "\<And>p r. map_option snd (first_of (ms f R (p, r, g))) = h r"
  shows "map_option snd (first_of (ms f (Seq (Rep Space 0 None True) R) (p, t, g))) = ws_first h t"
proof -
  have "ms f (Seq (Rep Space 0 None True) R) (p, t, g)
      = concat (map (\<lambda>k. ms f R (if k = 0 then p else Some (t ! (k - 1)), drop k t, g))
          (rev [0..<Suc (length (takeWhile isspace t))]))"
    by (simp add: Let_def comp_def rev_map atom_ok_Space del: upt_Suc)
  then show ?thesis
    by (simp only: ffirst_concat[of f R g h, OF assms] ffirst_ws)
qed

lemma tail_group:
  assumes "multiline f"
  shows "map_option snd (first_of (ms f
            (Seq (Rep Space 0 None True) (Seq (Grp (Rep Dot 1 None False)) Eol)) (p, t, g)))
       = ws_first (\<lambda>r. map_option (\<lambda>(cap, rem). (rem, Some cap)) (line_at (dotall f) r)) t"
  by (rule ws_then) (rule dot_eol_group[OF assms])

lemma tail_plain:
  assumes "multiline f"
  shows "map_option snd (first_of (ms f
            (Seq (Rep Space 0 None True) (Seq (Rep Dot 1 None False) Eol)) (p, t, g)))
       = ws_first (\<lambda>r. map_option (\<lambda>(cap, rem). (rem, g)) (line_at (dotall f) r)) t"
  by (rule ws_then) (rule dot_eol_plain[OF assms])

lemma ws_first_map:
  "ws_first (\<lambda>r. map_option k (h r)) t = map_option k (ws_first h t)"
  by (induction t) (auto split: option.splits)


lemma pscan_map: "pscan (\<lambda>p r. map_option k (h p r)) p s = map_option k (pscan h p s)"
  by (induction s arbitrary: p) (auto split: option.splits)

lemma marker_group:
  assumes "multiline f"
  shows "map_option snd (first_of (ms f
            (Seq (Lit w) (Seq (Rep Space 0 None True) (Seq (Grp (Rep Dot 1 None False)) Eol)))
            (p, r, None)))
       = map_option (\<lambda>(cap, rem). (rem, Some cap)) (marker_at (dotall f) w r)"
proof (cases "strip_prefix w r")
  case None
  then show ?thesis
    by (simp only: ms_seq_lit marker_at_def option.case first_of_Nil option.map)
next
  case (Some t)
  then show ?thesis
    by (simp only: ms_seq_lit marker_at_def option.case tail_group[OF assms] ws_first_map)
qed

lemma marker_plain:
  assumes "multiline f"
  shows "map_option (\<lambda>m. fst (snd m)) (first_of (ms f
            (Seq (Lit w) (Seq (Rep Space 0 None True) (Seq (Rep Dot 1 None False) Eol)))
            (p, r, None)))
       = map_option snd (marker_at (dotall f) w r)"
proof -
  have "map_option snd (first_of (ms f
            (Seq (Lit w) (Seq (Rep Space 0 None True) (Seq (Rep Dot 1 None False) Eol)))
            (p, r, None)))
       = map_option (\<lambda>(cap, rem). (rem, None)) (marker_at (dotall f) w r)"
  proof (cases "strip_prefix w r")
    case None
    then show ?thesis
      by (simp only: ms_seq_lit marker_at_def option.case first_of_Nil option.map)
  next
    case (Some t)
    then show ?thesis
      by (simp only: ms_seq_lit marker_at_def option.case tail_plain[OF assms] ws_first_map)
  qed
  then have "map_option fst (map_option snd (first_of (ms f
            (Seq (Lit w) (Seq (Rep Space 0 None True) (Seq (Rep Dot 1 None False) Eol)))
            (p, r, None))))
     = map_option fst (map_option (\<lambda>(cap, rem). (rem, None :: str option)) (marker_at (dotall f) w r))"
    by (rule arg_cong)
  then show ?thesis by (simp only: option.map_comp comp_def case_prod_unfold fst_conv)
qed

lemma bol_yes:
  "p = None \<or> (multiline f \<and> p = Some 10) \<Longrightarrow> ms f (Seq Bol b) (p, r, g) = ms f b (p, r, g)"
  by auto

lemma bol_no:
  "\<not> (p = None \<or> (multiline f \<and> p = Some 10)) \<Longrightarrow> ms f (Seq Bol b) (p, r, g) = []"
  by auto

lemma multi_flags: "multiline multi" "\<not> dotall multi" "multiline multi_dotall" "dotall multi_dotall"
  by (simp_all add: multi_def multi_dotall_def)

lemma hashtags_head:
  "map_option snd (first_of (ms multi_dotall hashtags_rx (p, r, None)))
     = map_option (\<lambda>(cap, rem). (rem, Some cap)) (hashtags_at p r)"
  unfolding hashtags_rx_def hashtags_at_def
  using marker_group[OF multi_flags(3), of "ustr ''HASHTAGS:''" p r]
  by (simp only: multi_flags)

lemma hashtags_sub_head:
  "map_option (\<lambda>m. fst (snd m)) (first_of (ms multi_dotall hashtags_sub_rx (p, r, None)))
     = map_option snd (hashtags_at p r)"
  unfolding hashtags_sub_rx_def hashtags_at_def
  using marker_plain[OF multi_flags(3), of "ustr ''HASHTAGS:''" p r]
  by (simp only: multi_flags)

lemma title_head:
  "map_option snd (first_of (ms multi title_rx (p, r, None)))
     = map_option (\<lambda>(cap, rem). (rem, Some cap)) (title_at p r)"
proof (cases "p = None \<or> p = Some 10")
  case True
  then have "p = None \<or> (multiline multi \<and> p = Some 10)" by (simp add: multi_flags)
  from bol_yes[OF this] True show ?thesis
    unfolding title_rx_def title_at_def
    using marker_group[OF multi_flags(1), of "ustr ''TITLE:''" p r]
    by (simp only: multi_flags if_True simp_thms)
next
  case False
  then have "\<not> (p = None \<or> (multiline multi \<and> p = Some 10))" by (simp add: multi_flags)
  from bol_no[OF this] False show ?thesis
    unfolding title_rx_def title_at_def
    by (simp only: if_False first_of_Nil option.map)
qed

lemma title_sub_head:
  "map_option (\<lambda>m. fst (snd m)) (first_of (ms multi title_sub_rx (p, r, None)))
     = map_option snd (title_at p r)"
proof (cases "p = None \<or> p = Some 10")
  case True
  then have "p = None \<or> (multiline multi \<and> p = Some 10)" by (simp add: multi_flags)
  from bol_yes[OF this] True show ?thesis
    unfolding title_sub_rx_def title_at_def
    using marker_plain[OF multi_flags(1), of "ustr ''TITLE:''" p r]
    by (simp only: multi_flags if_True simp_thms)
next
  case False
  then have "\<not> (p = None \<or> (multiline multi \<and> p = Some 10))" by (simp add: multi_flags)
  from bol_no[OF this] False show ?thesis
    unfolding title_sub_rx_def title_at_def
    by (simp only: if_False first_of_Nil option.map)
qed

lemma group1_fun: "group1 = (\<lambda>m. snd (snd m))"
  by (rule ext) (simp add: group1_def)

lemma search_hashtags:
  "map_option group1 (re_search multi_dotall hashtags_rx s)
     = map_option (\<lambda>(cap, rem). Some cap) (pscan hashtags_at None s)"
proof -
  have "map_option snd (re_search multi_dotall hashtags_rx s)
      = map_option (\<lambda>(cap, rem). (rem, Some cap)) (pscan hashtags_at None s)"
    unfolding re_search_def pscan_map[symmetric]
    by (rule search_from_pscan) (rule hashtags_head)
  then have "map_option snd (map_option snd (re_search multi_dotall hashtags_rx s))
      = map_option snd (map_option (\<lambda>(cap, rem). (rem, Some cap)) (pscan hashtags_at None s))"
    by simp
  then show ?thesis by (simp add: option.map_comp comp_def case_prod_unfold group1_fun)
qed

lemma search_title:
  "map_option group1 (re_search multi title_rx s)
     = map_option (\<lambda>(cap, rem). Some cap) (pscan title_at None s)"
proof -
  have "map_option snd (re_search multi title_rx s)
      = map_option (\<lambda>(cap, rem). (rem, Some cap)) (pscan title_at None s)"
    unfolding re_search_def pscan_map[symmetric]
    by (rule search_from_pscan) (rule title_head)
  then have "map_option snd (map_option snd (re_search multi title_rx s))
      = map_option snd (map_option (\<lambda>(cap, rem). (rem, Some cap)) (pscan title_at None s))"
    by simp
  then show ?thesis by (simp add: option.map_comp comp_def case_prod_unfold group1_fun)
qed

lemma sub_hashtags: "re_sub multi_dotall hashtags_sub_rx [] s = remove_hashtags s"
  unfolding re_sub_def remove_hashtags_def
  by (rule sub_from_psub) (rule hashtags_sub_head)

lemma sub_title: "re_sub multi title_sub_rx [] s = remove_title s"
  unfolding re_sub_def remove_title_def
  by (rule sub_from_psub) (rule title_sub_head)

lemma extract_title_explicit:
  "extract_title s =
     (case pscan title_at None s of
        None \<Rightarrow> Inr (None, s)
      | Some (cap, rem) \<Rightarrow> Inr (Some (strip cap), strip (remove_title s)))"
  using search_title[of s]
  by (cases "re_search multi title_rx s"; cases "pscan title_at None s")
     (auto simp: extract_title_def sub_title)

lemma extract_hashtags_explicit:
  "extract_hashtags s c =
     (case pscan hashtags_at None s of
        None \<Rightarrow> Inr ([], c)
      | Some (cap, rem) \<Rightarrow>
          Inr (map strip (filter (\<lambda>tag. strip tag \<noteq> []) (split (strip cap))),
               strip (remove_hashtags c)))"
  using search_hashtags[of s]
  by (cases "re_search multi_dotall hashtags_rx s"; cases "pscan hashtags_at None s")
     (auto simp: extract_hashtags_def sub_hashtags)

lemma ustr_TITLE: "ustr ''TITLE:'' = [84, 73, 84, 76, 69, 58]" by (simp add: ustr_def)
lemma ustr_HASHTAGS: "ustr ''HASHTAGS:'' = [72, 65, 83, 72, 84, 65, 71, 83, 58]" by (simp add: ustr_def)

lemmas scan_eval = title_at_def hashtags_at_def marker_at_def line_at_def nl_def
  ustr_TITLE ustr_HASHTAGS isspace_numeral remove_title_def remove_hashtags_def Let_def

lemma c3_title:
  "extract_title (ustr ''TITLE: Foo\<newline>\<newline>Body text\<newline>\<newline>HASHTAGS: #a #b #c'')
     = Inr (Some (ustr ''Foo''), ustr ''Body text\<newline>\<newline>HASHTAGS: #a #b #c'')"
  unfolding extract_title_explicit
  by (simp add: ustr_def scan_eval strip_def)

lemma c3_hashtags:
  "extract_hashtags (ustr ''TITLE: Foo\<newline>\<newline>Body text\<newline>\<newline>HASHTAGS: #a #b #c'')
      (ustr ''Body text\<newline>\<newline>HASHTAGS: #a #b #c'')
     = Inr ([ustr ''#a'', ustr ''#b'', ustr ''#c''], ustr ''Body text'')"
  unfolding extract_hashtags_explicit
  by (simp add: ustr_def scan_eval strip_def split_def)


lemma split_acc_tokens:
  "list_all (\<lambda>c. \<not> isspace c) w \<Longrightarrow> tok \<in> set (split_acc w s) \<Longrightarrow>
     tok \<noteq> [] \<and> list_all (\<lambda>c. \<not> isspace c) tok"
proof (induction s arbitrary: w)
  case Nil
  then show ?case by (auto split: if_splits)
next
  case (Cons c cs)
  show ?case
  proof (cases "isspace c")
    case True
    then have "tok = w \<and> w \<noteq> [] \<or> tok \<in> set (split_acc [] cs)"
      using Cons.prems(2) by (auto split: if_splits)
    then show ?thesis using Cons.prems(1) Cons.IH[of "[]"] by auto
  next
    case False
    then have "tok \<in> set (split_acc (w @ [c]) cs)" using Cons.prems(2) by simp
    moreover have "list_all (\<lambda>c. \<not> isspace c) (w @ [c])" using Cons.prems(1) False by simp
    ultimately show ?thesis using Cons.IH[of "w @ [c]"] by blast
  qed
qed

lemma strip_token: "tok \<noteq> [] \<Longrightarrow> list_all (\<lambda>c. \<not> isspace c) tok \<Longrightarrow> strip tok = tok"
  by (rule strip_id) (auto simp: list_all_iff)

lemma tokens_clean:
  "map strip (filter (\<lambda>tag. strip tag \<noteq> []) (split s)) = split s"
proof -
  have t: "\<And>tok. tok \<in> set (split s) \<Longrightarrow> strip tok = tok \<and> tok \<noteq> []"
    unfolding split_def using split_acc_tokens[of "[]" _ s] strip_token by auto
  then have "filter (\<lambda>tag. strip tag \<noteq> []) (split s) = split s"
    by (simp add: filter_id_conv)
  moreover have "map strip (split s) = split s" using t by (simp add: map_idI)
  ultimately show ?thesis by simp
qed

lemma split_acc_lstrip: "split_acc [] (dropWhile isspace s) = split_acc [] s"
  by (induction s) auto

lemma rtrim_Cons:
  "rev (dropWhile isspace (rev (c # cs))) =
     (if rev (dropWhile isspace (rev cs)) = [] \<and> isspace c then []
      else c # rev (dropWhile isspace (rev cs)))"
  by (auto simp: dropWhile_append dropWhile_eq_Nil_conv)

lemma split_acc_rstrip: "split_acc w (rev (dropWhile isspace (rev s))) = split_acc w s"
proof (induction s arbitrary: w)
  case Nil
  show ?case by simp
next
  case (Cons c cs)
  show ?case
  proof (cases "rev (dropWhile isspace (rev cs)) = [] \<and> isspace c")
    case True
    have "split_acc [] (rev (dropWhile isspace (rev cs))) = split_acc [] []"
      using True by (simp only:)
    then have "split_acc [] cs = []" using Cons.IH[of "[]"] by (simp del: dropWhile_eq_Nil_conv)
    then show ?thesis using True by (simp only: rtrim_Cons) simp
  next
    case False
    then show ?thesis using Cons.IH by (simp only: rtrim_Cons) simp
  qed
qed

lemma split_strip: "split (strip s) = split s"
  by (simp add: split_def strip_def split_acc_rstrip split_acc_lstrip)

lemma tags_split:
  "map strip (filter (\<lambda>tag. strip tag \<noteq> []) (split (strip g))) = split g"
  by (simp only: tokens_clean split_strip)


lemma parse_explicit:
  "parse_article_response now s = Inr
     (case pscan title_at None s of
        None \<Rightarrow> ustr ''Article_'' @ strftime_stamp now
      | Some (cap, rem) \<Rightarrow>
          if strip cap = [] then ustr ''Article_'' @ strftime_stamp now else strip cap,
      (case pscan hashtags_at None s of
         None \<Rightarrow> (case pscan title_at None s of None \<Rightarrow> s | Some x \<Rightarrow> strip (remove_title s))
       | Some y \<Rightarrow> strip (remove_hashtags
           (case pscan title_at None s of None \<Rightarrow> s | Some x \<Rightarrow> strip (remove_title s)))),
      (case pscan hashtags_at None s of None \<Rightarrow> [] | Some (cap, rem) \<Rightarrow> split cap))"
  by (auto simp: parse_article_response_def extract_title_explicit extract_hashtags_explicit
        tags_split split: option.splits)

lemma title_None_iff: "re_search multi title_rx s = None \<longleftrightarrow> pscan title_at None s = None"
  using search_title[of s] by (cases "re_search multi title_rx s"; cases "pscan title_at None s") auto

lemma pscan_Some: "pscan h p s = Some v \<Longrightarrow> \<exists>a b p'. s = a @ b \<and> h p' b = Some v"
proof (induction s arbitrary: p)
  case Nil
  then show ?case by auto
next
  case (Cons c cs)
  show ?case
  proof (cases "h p (c # cs)")
    case None
    then have "pscan h (Some c) cs = Some v" using Cons.prems by simp
    from Cons.IH[OF this] obtain a b p' where "cs = a @ b" "h p' b = Some v" by blast
    then have "c # cs = (c # a) @ b \<and> h p' b = Some v" by simp
    then show ?thesis by blast
  next
    case (Some x)
    then have "c # cs = [] @ (c # cs) \<and> h p (c # cs) = Some v" using Cons.prems by simp
    then show ?thesis by blast
  qed
qed

lemma hashtags_at_Some: "hashtags_at p b = Some v \<Longrightarrow> \<exists>t. b = ustr ''HASHTAGS:'' @ t"
  by (auto simp: hashtags_at_def marker_at_def strip_prefix_Some split: option.splits)

lemma no_marker:
  assumes "\<forall>a b. s \<noteq> a @ ustr ''HASHTAGS:'' @ b"
  shows "pscan hashtags_at p s = None"
proof (rule ccontr)
  assume "pscan hashtags_at p s \<noteq> None"
  then obtain v where "pscan hashtags_at p s = Some v" by auto
  from pscan_Some[OF this] obtain a b p' where ab: "s = a @ b" "hashtags_at p' b = Some v" by blast
  from hashtags_at_Some[OF ab(2)] obtain t where "b = ustr ''HASHTAGS:'' @ t" by blast
  then show False using assms ab(1) by blast
qed

lemma stamp_ne: "ustr ''Article_'' @ strftime_stamp now \<noteq> []"
  by (simp add: ustr_def)

lemma plain_title_none: "re_search multi title_rx (ustr '' x '') = None"
  unfolding title_None_iff by (simp add: ustr_def scan_eval)

lemma plain_no_marker: "\<forall>a b. ustr '' x '' \<noteq> a @ ustr ''HASHTAGS:'' @ b"
proof (intro allI notI)
  fix a b :: str
  assume "ustr '' x '' = a @ ustr ''HASHTAGS:'' @ b"
  then have "length (ustr '' x '') = length (a @ ustr ''HASHTAGS:'' @ b)" by (rule arg_cong)
  then show False by (simp add: ustr_def)
qed

lemma example_stamp:
  "ustr ''Article_'' @ strftime_stamp
      \<lparr>year = 2026, month = 11, day = 4, hour = 9, minute = 30, second = 0\<rparr>
     = ustr ''Article_20261104_093000''"
  by (simp add: strftime_stamp_def digit_def ustr_def)

lemma plain_example:
  "parse_article_response
      \<lparr>year = 2026, month = 11, day = 4, hour = 9, minute = 30, second = 0\<rparr> (ustr '' x '')
     = Inr (ustr ''Article_20261104_093000'', ustr '' x '', [])"
proof -
  have "pscan title_at None (ustr '' x '') = None" by (simp add: ustr_def scan_eval)
  moreover have "pscan hashtags_at None (ustr '' x '') = None" by (simp add: ustr_def scan_eval)
  ultimately show ?thesis unfolding parse_explicit by (simp add: example_stamp)
qed

lemma psub_prev: "psub (\<lambda>p. h0) repl p k s = psub (\<lambda>p. h0) repl p' k s"
  by (cases s) simp_all

lemma psub_drop:
  "k \<le> length s \<Longrightarrow> psub (\<lambda>p. h0) repl p k s = psub (\<lambda>p. h0) repl p 0 (drop k s)"
proof (induction s arbitrary: k p)
  case Nil
  then show ?case by simp
next
  case (Cons c cs)
  show ?case
  proof (cases k)
    case 0
    then show ?thesis by simp
  next
    case (Suc k')
    then have "k' \<le> length cs" using Cons.prems by simp
    from Cons.IH[OF this, of "Some c"] have
      "psub (\<lambda>p. h0) repl (Some c) k' cs = psub (\<lambda>p. h0) repl (Some c) 0 (drop k' cs)" .
    then show ?thesis using Suc psub_prev[of h0 repl "Some c" 0 "drop k' cs" p] by simp
  qed
qed

lemma psub_miss_prefix:
  "(\<And>a b. pre = a @ b \<Longrightarrow> b \<noteq> [] \<Longrightarrow> h0 (b @ s) = None) \<Longrightarrow>
     psub (\<lambda>p. h0) repl p 0 (pre @ s) = pre @ psub (\<lambda>p. h0) repl p 0 s"
proof (induction pre arbitrary: p)
  case Nil
  show ?case by simp
next
  case (Cons c cs)
  have "h0 ((c # cs) @ s) = None" using Cons.prems[of "[]" "c # cs"] by simp
  moreover have "psub (\<lambda>p. h0) repl (Some c) 0 (cs @ s) = cs @ psub (\<lambda>p. h0) repl (Some c) 0 s"
  proof (rule Cons.IH)
    fix a b assume "cs = a @ b" "b \<noteq> []"
    then show "h0 (b @ s) = None" using Cons.prems[of "c # a" b] by simp
  qed
  ultimately show ?case using psub_prev[of h0 repl "Some c" 0 s p] by simp
qed

lemma psub_none:
  "(\<And>a b. s = a @ b \<Longrightarrow> h0 b = None) \<Longrightarrow> psub (\<lambda>p. h0) repl p 0 s = s"
proof (induction s arbitrary: p)
  case Nil
  then show ?case by simp
next
  case (Cons c cs)
  have "h0 (c # cs) = None" using Cons.prems[of "[]" "c # cs"] by simp
  moreover have "psub (\<lambda>p. h0) repl (Some c) 0 cs = cs"
  proof (rule Cons.IH)
    fix a b assume "cs = a @ b"
    then show "h0 b = None" using Cons.prems[of "c # a" b] by simp
  qed
  ultimately show ?case by simp
qed

lemma psub_hit:
  assumes "h0 s = Some rem" "s = m @ rem" "m \<noteq> []"
  shows "psub (\<lambda>p. h0) repl p 0 s = repl @ psub (\<lambda>p. h0) repl p 0 rem"
proof -
  obtain c m' where m: "m = c # m'" using assms(3) by (cases m) auto
  define cs where "cs = m' @ rem"
  have s: "s = c # cs" using assms(2) m by (simp add: cs_def)
  have n: "length (c # cs) - length rem = Suc (length m')" by (simp add: cs_def)
  have kl: "length m' \<le> length cs" by (simp add: cs_def)
  have "drop (length m') cs = rem" by (simp add: cs_def)
  then have "psub (\<lambda>p. h0) repl (Some c) (length m') cs = psub (\<lambda>p. h0) repl p 0 rem"
    using psub_drop[OF kl, of h0 repl "Some c"] psub_prev[of h0 repl "Some c" 0 rem p] by simp
  then show ?thesis using assms(1) s n by (simp add: Let_def del: length_Cons)
qed

lemma pscan_skip:
  "(\<And>a b p'. pre = a @ b \<Longrightarrow> b \<noteq> [] \<Longrightarrow> h p' (b @ s) = None) \<Longrightarrow>
     pscan h p (pre @ s) = pscan h (if pre = [] then p else Some (last pre)) s"
proof (induction pre arbitrary: p)
  case Nil
  show ?case by simp
next
  case (Cons c cs)
  have "h p ((c # cs) @ s) = None" using Cons.prems[of "[]" "c # cs"] by simp
  moreover have "pscan h (Some c) (cs @ s) = pscan h (if cs = [] then Some c else Some (last cs)) s"
  proof (rule Cons.IH)
    fix a b p' assume "cs = a @ b" "b \<noteq> []"
    then show "h p' (b @ s) = None" using Cons.prems[of "c # a" b] by simp
  qed
  ultimately show ?case by simp
qed

lemma ws_first_line:
  "ws_first (line_at True) t =
     (if t = [] then None
      else if dropWhile isspace t = [] then Some ([last t], [])
      else Some (takeWhile nl (dropWhile isspace t), dropWhile nl (dropWhile isspace t)))"
proof (induction t)
  case Nil
  show ?case by (simp add: line_at_def)
next
  case (Cons c cs)
  show ?case
  proof (cases "isspace c")
    case False
    then have "c \<noteq> 10" by (auto simp: isspace_def)
    then show ?thesis using False by (simp add: line_at_def nl_def)
  next
    case True
    show ?thesis
    proof (cases "cs = []")
      case True
      then show ?thesis using \<open>isspace c\<close> by (simp add: line_at_def)
    next
      case False
      then show ?thesis using \<open>isspace c\<close> Cons.IH by simp
    qed
  qed
qed


lemma hashtags_at_marker:
  assumes "t \<noteq> []"
  shows "\<exists>cap. hashtags_at p (ustr ''HASHTAGS:'' @ t) = Some (cap, dropWhile nl (dropWhile isspace t)) \<and>
           split cap = split (takeWhile nl (dropWhile isspace t))"
proof -
  have sp: "strip_prefix (ustr ''HASHTAGS:'') (ustr ''HASHTAGS:'' @ t) = Some t"
    by (simp add: strip_prefix_Some)
  show ?thesis
  proof (cases "dropWhile isspace t = []")
    case True
    then have "isspace (last t)" using assms by (simp add: dropWhile_eq_Nil_conv)
    then have "split [last t] = []" by (simp add: split_def)
    then show ?thesis using assms sp
      by (simp add: hashtags_at_def marker_at_def ws_first_line split_def True
            del: dropWhile_eq_Nil_conv)
  next
    case False
    show ?thesis using assms sp
      by (simp add: hashtags_at_def marker_at_def ws_first_line False
            del: dropWhile_eq_Nil_conv)
  qed
qed

lemma hashtags_before_first:
  assumes first: "\<forall>a b. pre @ ustr ''HASHTAGS:'' @ t = a @ ustr ''HASHTAGS:'' @ b \<longrightarrow> length pre \<le> length a"
    and "pre = a @ b" "b \<noteq> []"
  shows "hashtags_at p (b @ ustr ''HASHTAGS:'' @ t) = None"
proof (rule ccontr)
  assume "hashtags_at p (b @ ustr ''HASHTAGS:'' @ t) \<noteq> None"
  then obtain v where "hashtags_at p (b @ ustr ''HASHTAGS:'' @ t) = Some v" by auto
  from hashtags_at_Some[OF this] obtain t' where "b @ ustr ''HASHTAGS:'' @ t = ustr ''HASHTAGS:'' @ t'"
    by blast
  then have "pre @ ustr ''HASHTAGS:'' @ t = a @ ustr ''HASHTAGS:'' @ t'" using assms(2) by simp
  then have "length pre \<le> length a" using first by blast
  then show False using assms(2,3) by simp
qed

lemma hashtags_after:
  assumes "\<forall>a b. t \<noteq> a @ ustr ''HASHTAGS:'' @ b" "t = x @ r" "r = a @ b"
  shows "map_option snd (hashtags_at p b) = None"
proof (rule ccontr)
  assume "map_option snd (hashtags_at p b) \<noteq> None"
  then obtain v where "hashtags_at p b = Some v" by auto
  from hashtags_at_Some[OF this] obtain t' where "b = ustr ''HASHTAGS:'' @ t'" by blast
  then have "t = (x @ a) @ ustr ''HASHTAGS:'' @ t'" using assms(2,3) by simp
  then show False using assms(1) by blast
qed

lemma c1_hashtags:
  assumes "t \<noteq> []"
    and first: "\<forall>a b. pre @ ustr ''HASHTAGS:'' @ t = a @ ustr ''HASHTAGS:'' @ b \<longrightarrow> length pre \<le> length a"
  shows "\<exists>cap rem. pscan hashtags_at None (pre @ ustr ''HASHTAGS:'' @ t) = Some (cap, rem) \<and>
           split cap = split (takeWhile nl (dropWhile isspace t))"
proof -
  let ?s = "ustr ''HASHTAGS:'' @ t"
  let ?p = "if pre = [] then None else Some (last pre)"
  have "pscan hashtags_at None (pre @ ?s) = pscan hashtags_at ?p ?s"
    by (rule pscan_skip) (use hashtags_before_first[OF first] in blast)
  moreover obtain cap where c: "hashtags_at ?p ?s = Some (cap, dropWhile nl (dropWhile isspace t))"
      "split cap = split (takeWhile nl (dropWhile isspace t))"
    using hashtags_at_marker[OF assms(1), of ?p] by blast
  moreover have "pscan hashtags_at ?p ?s = hashtags_at ?p ?s"
    using c(1) by (cases ?s) auto
  ultimately show ?thesis by auto
qed

lemma c1_body:
  assumes "t \<noteq> []"
    and first: "\<forall>a b. pre @ ustr ''HASHTAGS:'' @ t = a @ ustr ''HASHTAGS:'' @ b \<longrightarrow> length pre \<le> length a"
    and after: "\<forall>a b. t \<noteq> a @ ustr ''HASHTAGS:'' @ b"
  shows "remove_hashtags (pre @ ustr ''HASHTAGS:'' @ t) = pre @ dropWhile nl (dropWhile isspace t)"
proof -
  let ?M = "ustr ''HASHTAGS:''"
  let ?h = "\<lambda>r. map_option snd (hashtags_at None r)"
  let ?rem = "dropWhile nl (dropWhile isspace t)"
  have hp: "(\<lambda>p r. map_option snd (hashtags_at p r)) = (\<lambda>p. ?h)"
    by (intro ext) (simp add: hashtags_at_def)
  have 1: "psub (\<lambda>p. ?h) [] None 0 (pre @ ?M @ t) = pre @ psub (\<lambda>p. ?h) [] None 0 (?M @ t)"
  proof (rule psub_miss_prefix)
    fix a b assume "pre = a @ b" "b \<noteq> []"
    then show "?h (b @ ?M @ t) = None" using hashtags_before_first[OF first] by simp
  qed
  have hit: "?h (?M @ t) = Some ?rem" using hashtags_at_marker[OF assms(1), of None] by auto
  have dec: "t = (takeWhile isspace t @ takeWhile nl (dropWhile isspace t)) @ ?rem" by simp
  then have "?M @ t = (?M @ takeWhile isspace t @ takeWhile nl (dropWhile isspace t)) @ ?rem"
    by simp
  moreover have "?M @ takeWhile isspace t @ takeWhile nl (dropWhile isspace t) \<noteq> []"
    by (simp add: ustr_def)
  ultimately have 2: "psub (\<lambda>p. ?h) [] None 0 (?M @ t) = [] @ psub (\<lambda>p. ?h) [] None 0 ?rem"
    using hit by (rule psub_hit[rotated])
  have 3: "psub (\<lambda>p. ?h) [] None 0 ?rem = ?rem"
  proof (rule psub_none)
    fix a b assume "?rem = a @ b"
    then show "?h b = None" using hashtags_after[OF after dec] by blast
  qed
  show ?thesis unfolding remove_hashtags_def hp 1 2 3 by simp
qed

lemma hashline_raw:
  "ustr ''Body\<newline>HASHTAGS: #a #b\<newline>extra''
     = ustr ''Body\<newline>'' @ ustr ''HASHTAGS:'' @ ustr '' #a #b\<newline>extra''"
  by (simp add: ustr_def)

lemma hashline_first:
  "\<forall>a b. ustr ''Body\<newline>HASHTAGS: #a #b\<newline>extra'' = a @ ustr ''HASHTAGS:'' @ b
     \<longrightarrow> length (ustr ''Body\<newline>'') \<le> length a"
proof (intro allI impI)
  fix a b :: str
  assume e: "ustr ''Body\<newline>HASHTAGS: #a #b\<newline>extra'' = a @ ustr ''HASHTAGS:'' @ b"
  then have "ustr ''Body\<newline>HASHTAGS: #a #b\<newline>extra'' ! length a = (a @ ustr ''HASHTAGS:'' @ b) ! length a"
    by simp
  then have h: "ustr ''Body\<newline>HASHTAGS: #a #b\<newline>extra'' ! length a = 72"
    by (simp add: ustr_def)
  show "length (ustr ''Body\<newline>'') \<le> length a"
  proof (rule ccontr)
    assume "\<not> length (ustr ''Body\<newline>'') \<le> length a"
    then have "length a < 5" by (simp add: ustr_def)
    then consider "length a = 0" | "length a = 1" | "length a = 2" | "length a = 3" | "length a = 4"
      by linarith
    then show False using h by cases (simp_all add: ustr_def)
  qed
qed

lemma hashline_after: "\<forall>a b. ustr '' #a #b\<newline>extra'' \<noteq> a @ ustr ''HASHTAGS:'' @ b"
proof (intro allI notI)
  fix a b :: str
  assume e: "ustr '' #a #b\<newline>extra'' = a @ ustr ''HASHTAGS:'' @ b"
  then have "ustr '' #a #b\<newline>extra'' ! length a = (a @ ustr ''HASHTAGS:'' @ b) ! length a"
    by simp
  then have h: "ustr '' #a #b\<newline>extra'' ! length a = 72"
    by (simp add: ustr_def)
  from e have "length (ustr '' #a #b\<newline>extra'') = length (a @ ustr ''HASHTAGS:'' @ b)"
    by (rule arg_cong)
  then have "length a < 4" by (simp add: ustr_def)
  then consider "length a = 0" | "length a = 1" | "length a = 2" | "length a = 3"
    by linarith
  then show False using h by cases (simp_all add: ustr_def)
qed

lemma hashline_values:
  "strip (ustr ''Body\<newline>'' @ dropWhile (\<lambda>c. c \<noteq> 10) (dropWhile isspace (ustr '' #a #b\<newline>extra'')))
     = ustr ''Body\<newline>\<newline>extra''"
  "split (takeWhile (\<lambda>c. c \<noteq> 10) (dropWhile isspace (ustr '' #a #b\<newline>extra'')))
     = [ustr ''#a'', ustr ''#b'']"
  by (simp_all add: ustr_def strip_def split_def isspace_numeral)

lemma trailing_example:
  "parse_article_response
      \<lparr>year = 2026, month = 11, day = 4, hour = 9, minute = 30, second = 0\<rparr>
      (ustr ''TITLE: T\<newline>\<newline>Body\<newline>\<newline>HASHTAGS: #a\<newline>extra'')
     = Inr (ustr ''T'', ustr ''Body\<newline>\<newline>\<newline>extra'', [ustr ''#a''])"
proof -
  have t: "pscan title_at None (ustr ''TITLE: T\<newline>\<newline>Body\<newline>\<newline>HASHTAGS: #a\<newline>extra'')
      = Some (ustr ''T'', ustr ''\<newline>\<newline>Body\<newline>\<newline>HASHTAGS: #a\<newline>extra'')"
    by (simp add: ustr_def scan_eval)
  have r: "strip (remove_title (ustr ''TITLE: T\<newline>\<newline>Body\<newline>\<newline>HASHTAGS: #a\<newline>extra''))
      = ustr ''Body\<newline>\<newline>HASHTAGS: #a\<newline>extra''"
    by (simp add: ustr_def scan_eval strip_def)
  have h: "pscan hashtags_at None (ustr ''TITLE: T\<newline>\<newline>Body\<newline>\<newline>HASHTAGS: #a\<newline>extra'')
      = Some (ustr ''#a'', ustr ''\<newline>extra'')"
    by (simp add: ustr_def scan_eval)
  have b: "strip (remove_hashtags (ustr ''Body\<newline>\<newline>HASHTAGS: #a\<newline>extra''))
      = ustr ''Body\<newline>\<newline>\<newline>extra''"
    by (simp add: ustr_def scan_eval strip_def)
  have s: "split (ustr ''#a'') = [ustr ''#a'']" "strip (ustr ''T'') = ustr ''T''" "ustr ''T'' \<noteq> []"
    by (simp_all add: ustr_def split_def strip_def isspace_numeral)
  show ?thesis unfolding parse_explicit t r h by (simp add: b s)
qed

lemma atom_ok_invalid: "atom_ok f invalid_chars = invalid"
  by (rule ext) (auto simp: invalid_chars_def invalid_def)

lemma invalid_head:
  "map_option (\<lambda>m. fst (snd m)) (first_of (ms no_flags (One invalid_chars) (p, r, None)))
     = (case r of [] \<Rightarrow> None | c # cs \<Rightarrow> if invalid c then Some cs else None)"
  by (cases r) (simp_all add: first_of_def atom_ok_invalid)

lemma spaces_head:
  "map_option (\<lambda>m. fst (snd m)) (first_of (ms no_flags (Rep Space 1 None True) (p, r, None)))
     = (case r of [] \<Rightarrow> None | c # cs \<Rightarrow> if isspace c then Some (dropWhile isspace cs) else None)"
proof (cases r)
  case Nil
  then show ?thesis by (simp add: first_of_def)
next
  case (Cons c cs)
  show ?thesis
  proof (cases "isspace c")
    case False
    then show ?thesis using Cons by (simp add: first_of_def atom_ok_Space)
  next
    case True
    let ?a = "length (takeWhile isspace cs)"
    have "rev [1..<Suc (Suc ?a)] = Suc ?a # rev [1..<Suc ?a]" by simp
    then have "first_of (ms no_flags (Rep Space 1 None True) (p, c # cs, None))
        = Some (Some ((c # cs) ! ?a), drop (Suc ?a) (c # cs), None)"
      using True by (simp add: Let_def atom_ok_Space first_of_Cons del: upt_Suc)
    then show ?thesis using Cons True by (simp add: dropWhile_eq_drop)
  qed
qed

lemma sub_invalid: "re_sub no_flags (One invalid_chars) [] s = filter (\<lambda>c. \<not> invalid c) s"
proof -
  let ?h = "\<lambda>r. case r of [] \<Rightarrow> None | c # cs \<Rightarrow> if invalid c then Some cs else None"
  have "re_sub no_flags (One invalid_chars) [] s = psub (\<lambda>p. ?h) [] None 0 s"
    unfolding re_sub_def by (rule sub_from_psub) (rule invalid_head)
  also have "\<dots> = filter (\<lambda>c. \<not> invalid c) s"
  proof (induction s)
    case Nil
    show ?case by simp
  next
    case (Cons c cs)
    then show ?case using psub_prev[of ?h "[]" "Some c" 0 cs None] by simp
  qed
  finally show ?thesis .
qed

lemma sub_spaces: "re_sub no_flags (Rep Space 1 None True) (ustr ''_'') s = collapse s"
proof -
  let ?h = "\<lambda>r. case r of [] \<Rightarrow> None | c # cs \<Rightarrow> if isspace c then Some (dropWhile isspace cs) else None"
  have u: "ustr ''_'' = [95]" by (simp add: ustr_def)
  have "re_sub no_flags (Rep Space 1 None True) (ustr ''_'') s = psub (\<lambda>p. ?h) [95] None 0 s"
    unfolding re_sub_def u by (rule sub_from_psub) (rule spaces_head)
  also have "\<dots> = collapse s"
  proof (induction s rule: collapse.induct)
    case 1
    show ?case by simp
  next
    case (2 c cs)
    show ?case
    proof (cases "isspace c")
      case False
      then show ?thesis using 2(2) psub_prev[of ?h "[95]" "Some c" 0 cs None] by simp
    next
      case True
      have hit: "?h (c # cs) = Some (dropWhile isspace cs)" using True by simp
      have dec: "c # cs = (c # takeWhile isspace cs) @ dropWhile isspace cs" by simp
      have "psub (\<lambda>p. ?h) [95] None 0 (c # cs) = [95] @ psub (\<lambda>p. ?h) [95] None 0 (dropWhile isspace cs)"
        using hit dec by (rule psub_hit) simp
      then show ?thesis using True 2(1) by simp
    qed
  qed
  finally show ?thesis .
qed

lemma length_collapse: "length (collapse s) \<le> length s"
proof (induction s rule: collapse.induct)
  case 1
  show ?case by simp
next
  case (2 c cs)
  show ?case
  proof (cases "isspace c")
    case True
    then show ?thesis using 2(1) length_dropWhile_le[of isspace cs] by simp
  next
    case False
    then show ?thesis using 2(2) by simp
  qed
qed

lemma sanitize_explicit:
  "sanitize_filename t = take 100 (collapse (filter (\<lambda>c. \<not> invalid c) t))"
  unfolding sanitize_filename_def Let_def sub_invalid sub_spaces by simp

lemma leftmost_sep:
  assumes "sep = ustr ''v='' \<or> sep = ustr ''/''" "length X = 11" "list_all idc X"
    and first: "\<And>a s Y r. (s = ustr ''v='' \<or> s = ustr ''/'') \<Longrightarrow> length Y = 11 \<Longrightarrow> list_all idc Y \<Longrightarrow>
                  pre @ sep @ X @ rest = a @ s @ Y @ r \<Longrightarrow> length pre \<le> length a"
  shows "get_video_id (pre @ sep @ X @ rest) = Inr (Some X)"
proof -
  let ?s = "sep @ X @ rest"
  have ne: "?s \<noteq> []" using assms(1) by (auto simp: ustr_v ustr_slash)
  have "scan watch_at (pre @ ?s) = scan watch_at ?s"
  proof (rule scan_skip)
    fix a b assume ab: "pre = a @ b" "b \<noteq> []"
    show "watch_at (b @ ?s) = None"
    proof (rule ccontr)
      assume "watch_at (b @ ?s) \<noteq> None"
      then obtain v where "watch_at (b @ ?s) = Some v" by auto
      from watch_at_Some[OF this] obtain w r where
        w: "w = ustr ''v='' \<or> w = ustr ''/''" "b @ ?s = w @ v @ r" "length v = 11" "list_all idc v"
        by blast
      have "pre @ ?s = a @ w @ v @ r" using ab(1) w(2) by simp
      from first[OF w(1) w(3) w(4) this] show False using ab by simp
    qed
  qed
  moreover have "scan watch_at ?s = Some X"
    using ne watch_at_sep[OF assms(1,2,3), of rest] by (rule scan_cons_hit)
  moreover have "strip (pre @ ?s) \<noteq> []"
    using sep_not_blank[OF assms(1), of pre "X @ rest"] by (simp add: strip_Nil_iff)
  ultimately show ?thesis by (simp add: get_video_id_scan vid_scan_watch)
qed

lemma leftmost_by_scan:
  assumes none: "\<And>a b. pre = a @ b \<Longrightarrow> b \<noteq> [] \<Longrightarrow> watch_at (b @ s) = None"
    and "s' = ustr ''v='' \<or> s' = ustr ''/''" "length Y = 11" "list_all idc Y"
    and eq: "pre @ s = a @ s' @ Y @ r"
  shows "length pre \<le> length a"
proof (rule ccontr)
  assume "\<not> length pre \<le> length a"
  then have l: "length a < length pre" by simp
  have a: "a = take (length a) pre" using eq l
    by (metis append_eq_conv_conj less_imp_le_nat take_append take_all_iff diff_is_0_eq' take_0 append_Nil2)
  define b where "b = drop (length a) pre"
  have p: "pre = a @ b" using a b_def by (metis append_take_drop_id)
  have b: "b \<noteq> []" using l b_def by simp
  have "b @ s = s' @ Y @ r" using eq p by simp
  then have "watch_at (b @ s) = Some Y" using watch_at_sep[OF assms(2,3,4), of r] by simp
  then show False using none[OF p b] by simp
qed

lemma suffixes_Nil: "(\<forall>a b. [] = a @ b \<and> b \<noteq> [] \<longrightarrow> P b) \<longleftrightarrow> True"
  by simp

lemma suffixes_Cons:
  "(\<forall>a b. c # cs = a @ b \<and> b \<noteq> [] \<longrightarrow> P b) \<longleftrightarrow> P (c # cs) \<and> (\<forall>a b. cs = a @ b \<and> b \<noteq> [] \<longrightarrow> P b)"
proof
  assume h: "\<forall>a b. c # cs = a @ b \<and> b \<noteq> [] \<longrightarrow> P b"
  have "P (c # cs)" using h by (metis append_Nil list.distinct(1))
  moreover have "\<forall>a b. cs = a @ b \<and> b \<noteq> [] \<longrightarrow> P b" using h by (metis append_Cons)
  ultimately show "P (c # cs) \<and> (\<forall>a b. cs = a @ b \<and> b \<noteq> [] \<longrightarrow> P b)" by blast
next
  assume h: "P (c # cs) \<and> (\<forall>a b. cs = a @ b \<and> b \<noteq> [] \<longrightarrow> P b)"
  show "\<forall>a b. c # cs = a @ b \<and> b \<noteq> [] \<longrightarrow> P b"
  proof (intro allI impI)
    fix a b assume e: "c # cs = a @ b \<and> b \<noteq> []"
    show "P b"
    proof (cases a)
      case Nil
      then show ?thesis using e h by simp
    next
      case (Cons x xs)
      then have "cs = xs @ b" using e by simp
      then show ?thesis using h e by blast
    qed
  qed
qed

lemma example_prefix:
  "\<forall>a b. ustr ''https://example.com'' = a @ b \<and> b \<noteq> [] \<longrightarrow>
      watch_at (b @ ustr ''/'' @ ustr ''abcdefghijk'' @ []) = None"
  by (simp add: ustr_def suffixes_Cons suffixes_Nil watch_at_Cons idc_numeral)

lemma example_leftmost:
  assumes "s = ustr ''v='' \<or> s = ustr ''/''" "length Y = 11" "list_all idc Y"
    and "ustr ''https://example.com'' @ ustr ''/'' @ ustr ''abcdefghijk'' @ [] = a @ s @ Y @ r"
  shows "length (ustr ''https://example.com'') \<le> length a"
  using _ assms
proof (rule leftmost_by_scan)
  fix a b :: str
  assume "ustr ''https://example.com'' = a @ b" "b \<noteq> []"
  then show "watch_at (b @ ustr ''/'' @ ustr ''abcdefghijk'' @ []) = None"
    using example_prefix by blast
qed

lemma nocookie_host:
  "get_video_id (ustr ''https://youtube-nocookie.com/embed/dQw4w9WgXcQ'')
     = Inr (Some (ustr ''youtube-noc''))"
proof -
  have "scan watch_at (ustr ''https://youtube-nocookie.com/embed/dQw4w9WgXcQ'') = Some (ustr ''youtube-noc'')"
    by (simp add: ustr_def watch_at_Cons watch_at_Nil idc_numeral)
  moreover have "strip (ustr ''https://youtube-nocookie.com/embed/dQw4w9WgXcQ'') \<noteq> []"
    by (simp add: strip_Nil_iff ustr_def isspace_numeral)
  ultimately show ?thesis by (simp add: get_video_id_scan vid_scan_watch)
qed

lemma nocookie_embed:
  "map_option group1 (re_search no_flags pattern_embed (ustr ''https://youtube-nocookie.com/embed/dQw4w9WgXcQ''))
     = Some (Some (ustr ''dQw4w9WgXcQ''))"
proof -
  have "scan (id_at (ustr ''embed/'')) (ustr ''https://youtube-nocookie.com/embed/dQw4w9WgXcQ'')
      = Some (ustr ''dQw4w9WgXcQ'')"
    by (simp add: ustr_def id_at_def idc_numeral)
  then show ?thesis by (simp add: search_embed)
qed


lemma title_step:
  "(case pscan title_at None s of None \<Rightarrow> s | Some x \<Rightarrow> strip (remove_title s))
     = (if re_search multi title_rx s = None then s else strip (re_sub multi title_sub_rx [] s))"
  by (simp add: title_None_iff sub_title split: option.splits)

lemma remove_hashtags_none:
  assumes "\<forall>a b. s \<noteq> a @ ustr ''HASHTAGS:'' @ b"
  shows "remove_hashtags s = s"
proof -
  let ?h = "\<lambda>r. map_option snd (hashtags_at None r)"
  have hp: "(\<lambda>p r. map_option snd (hashtags_at p r)) = (\<lambda>p. ?h)"
    by (intro ext) (simp add: hashtags_at_def)
  have "psub (\<lambda>p. ?h) [] None 0 s = s"
  proof (rule psub_none)
    fix a b assume "s = a @ b"
    then show "?h b = None" using hashtags_after[OF assms, of "[]" s a b] by simp
  qed
  then show ?thesis unfolding remove_hashtags_def hp by simp
qed

lemma c1_parse:
  assumes "t \<noteq> []"
    and first: "\<forall>a b. pre @ ustr ''HASHTAGS:'' @ t = a @ ustr ''HASHTAGS:'' @ b \<longrightarrow> length pre \<le> length a"
  shows "\<exists>ti. parse_article_response now (pre @ ustr ''HASHTAGS:'' @ t) =
     Inr (ti,
          strip (remove_hashtags
            (if re_search multi title_rx (pre @ ustr ''HASHTAGS:'' @ t) = None
             then pre @ ustr ''HASHTAGS:'' @ t
             else strip (re_sub multi title_sub_rx [] (pre @ ustr ''HASHTAGS:'' @ t)))),
          split (takeWhile (\<lambda>c. c \<noteq> 10) (dropWhile isspace t)))"
proof -
  have n: "nl = (\<lambda>c. c \<noteq> 10)" by (rule ext) (simp add: nl_def)
  from c1_hashtags[OF assms] obtain cap rem where
    h: "pscan hashtags_at None (pre @ ustr ''HASHTAGS:'' @ t) = Some (cap, rem)"
       "split cap = split (takeWhile (\<lambda>c. c \<noteq> 10) (dropWhile isspace t))"
    unfolding n by blast
  show ?thesis unfolding parse_explicit title_step using h by simp
qed

lemma titled_raw:
  "ustr ''TITLE: T\<newline>Body\<newline>HASHTAGS: #a #b\<newline>extra''
     = ustr ''TITLE: T\<newline>Body\<newline>'' @ ustr ''HASHTAGS:'' @ ustr '' #a #b\<newline>extra''"
  by (simp add: ustr_def)

lemma titled_first:
  "\<forall>a b. ustr ''TITLE: T\<newline>Body\<newline>HASHTAGS: #a #b\<newline>extra'' = a @ ustr ''HASHTAGS:'' @ b
     \<longrightarrow> length (ustr ''TITLE: T\<newline>Body\<newline>'') \<le> length a"
proof (intro allI impI)
  fix a b :: str
  let ?raw = "ustr ''TITLE: T\<newline>Body\<newline>HASHTAGS: #a #b\<newline>extra''"
  assume e: "?raw = a @ ustr ''HASHTAGS:'' @ b"
  then have "?raw ! length a = (a @ ustr ''HASHTAGS:'' @ b) ! length a" by simp
  then have h: "?raw ! length a = 72" by (simp add: ustr_def)
  show "length (ustr ''TITLE: T\<newline>Body\<newline>'') \<le> length a"
  proof (rule ccontr)
    assume "\<not> length (ustr ''TITLE: T\<newline>Body\<newline>'') \<le> length a"
    then have l: "length a < 14" by (simp add: ustr_def)
    then have "take 14 ?raw ! length a = 72" using h by simp
    moreover have "length (take 14 ?raw) = 14" by (simp add: ustr_def)
    ultimately have "72 \<in> set (take 14 ?raw)" using l by (metis nth_mem)
    then show False by (simp add: ustr_def)
  qed
qed

lemma titled_content:
  "(if re_search multi title_rx (ustr ''TITLE: T\<newline>Body\<newline>HASHTAGS: #a #b\<newline>extra'') = None
    then ustr ''TITLE: T\<newline>Body\<newline>HASHTAGS: #a #b\<newline>extra''
    else strip (re_sub multi title_sub_rx [] (ustr ''TITLE: T\<newline>Body\<newline>HASHTAGS: #a #b\<newline>extra'')))
   = ustr ''Body\<newline>HASHTAGS: #a #b\<newline>extra''"
proof -
  have t: "pscan title_at None (ustr ''TITLE: T\<newline>Body\<newline>HASHTAGS: #a #b\<newline>extra'')
      = Some (ustr ''T'', ustr ''\<newline>Body\<newline>HASHTAGS: #a #b\<newline>extra'')"
    by (simp add: ustr_def scan_eval)
  have r: "strip (remove_title (ustr ''TITLE: T\<newline>Body\<newline>HASHTAGS: #a #b\<newline>extra''))
      = ustr ''Body\<newline>HASHTAGS: #a #b\<newline>extra''"
    by (simp add: ustr_def scan_eval strip_def)
  show ?thesis unfolding title_step[symmetric] t using r by simp
qed

lemma titled_title:
  "\<exists>c h. parse_article_response now (ustr ''TITLE: T\<newline>Body\<newline>HASHTAGS: #a #b\<newline>extra'')
     = Inr (ustr ''T'', c, h)"
proof -
  have t: "pscan title_at None (ustr ''TITLE: T\<newline>Body\<newline>HASHTAGS: #a #b\<newline>extra'')
      = Some (ustr ''T'', ustr ''\<newline>Body\<newline>HASHTAGS: #a #b\<newline>extra'')"
    by (simp add: ustr_def scan_eval)
  have s: "strip (ustr ''T'') = ustr ''T''" "ustr ''T'' \<noteq> []"
    by (simp_all add: ustr_def strip_def isspace_numeral)
  show ?thesis unfolding parse_explicit t by (simp add: s)
qed



























section \<open>Claims about get_video_id\<close>

text \<open>
  C4 (as amended). The claim says that an empty or whitespace-only reference makes the
  extraction fail with an error. The source returns \<^verbatim>\<open>None\<close> there, without raising. What
  holds: for every reference that is empty or only whitespace \<open>get_video_id\<close> returns
  \<^verbatim>\<open>None\<close>; for every reference of 5 characters that is not only whitespace (no pattern can
  match so short a string) it raises \<^verbatim>\<open>ValueError\<close> with the reference in the message.
\<close>

theorem get_video_id_blank_or_short:
  "(list_all isspace url \<longrightarrow> get_video_id url = Inr None) \<and>
   (length url = 5 \<and> \<not> list_all isspace url \<longrightarrow>
      get_video_id url = Inl (ValueError (ustr ''Could not extract video ID from: '' @ url)))"
proof (intro conjI impI)
  assume "list_all isspace url"
  then show "get_video_id url = Inr None" by (simp add: get_video_id_scan strip_Nil_iff)
next
  assume a: "length url = 5 \<and> \<not> list_all isspace url"
  then have "vid_scan url = None" by (simp add: vid_scan_short)
  moreover have "length (strip url) \<noteq> 11" using length_strip[of url] a by simp
  ultimately show "get_video_id url = Inl (ValueError (ustr ''Could not extract video ID from: '' @ url))"
    using a by (simp add: get_video_id_scan strip_Nil_iff)
qed

theorem get_video_id_blank_or_short_witness:
  "list_all isspace (ustr ''   '') \<and> get_video_id (ustr ''   '') = Inr None \<and>
   length (ustr ''abcde'') = 5 \<and> \<not> list_all isspace (ustr ''abcde'') \<and>
   get_video_id (ustr ''abcde'') =
     Inl (ValueError (ustr ''Could not extract video ID from: '' @ ustr ''abcde''))"
proof -
  have b: "list_all isspace (ustr ''   '')" by (simp add: ustr_def isspace_def)
  have s: "length (ustr ''abcde'') = 5 \<and> \<not> list_all isspace (ustr ''abcde'')"
    by (simp add: ustr_def isspace_def)
  show ?thesis
    using get_video_id_blank_or_short[of "ustr ''   ''"]
      get_video_id_blank_or_short[of "ustr ''abcde''"] b s by blast
qed

text \<open>
  C4, the claim as stated fails: on the empty string and on a string of three spaces
  \<open>get_video_id\<close> returns \<^verbatim>\<open>None\<close>; it does not raise.
\<close>

theorem get_video_id_blank_counterexample:
  "get_video_id [] = Inr None \<and> get_video_id (ustr ''   '') = Inr None"
  by (simp add: get_video_id_scan strip_Nil_iff ustr_def isspace_def)

text \<open>
  C5 (as amended). The claim says that every returned identifier matches
  \<^verbatim>\<open>[0-9A-Za-z_-]{11}\<close>. What holds: every returned identifier has exactly 11 characters;
  it consists of characters of that class when one of the three patterns matched, and it
  is the trimmed reference itself, whatever its characters, when none matched. The
  extraction raises exactly when the reference is not blank, no pattern matches and the
  trimmed reference does not have 11 characters.
\<close>

theorem get_video_id_result:
  "(get_video_id url = Inr (Some v) \<longrightarrow>
      length v = 11 \<and>
      (if first_match patterns url = None then v = strip url else list_all idc v)) \<and>
   ((\<exists>e. get_video_id url = Inl e) \<longleftrightarrow>
      \<not> list_all isspace url \<and> first_match patterns url = None \<and> length (strip url) \<noteq> 11)"
proof (cases "scan watch_at url")
  case None
  then show ?thesis
    by (auto simp: first_match_None get_video_id_scan vid_scan_watch strip_Nil_iff)
next
  case (Some x)
  from scan_Some[OF this] obtain a b where "url = a @ b" "watch_at b = Some x" by blast
  then obtain sep rest where
    x: "sep = ustr ''v='' \<or> sep = ustr ''/''" "url = a @ sep @ x @ rest" "length x = 11" "list_all idc x"
    using watch_at_Some by blast
  have "\<not> list_all isspace url"
    using x(1,2) sep_not_blank by blast
  then show ?thesis using Some x(3,4)
    by (auto simp: first_match_None get_video_id_scan vid_scan_watch strip_Nil_iff)
qed

theorem get_video_id_result_witness:
  "get_video_id (ustr ''https://youtu.be/dQw4w9WgXcQ'') = Inr (Some (ustr ''dQw4w9WgXcQ'')) \<and>
   length (ustr ''dQw4w9WgXcQ'') = 11 \<and> list_all idc (ustr ''dQw4w9WgXcQ'')"
  using get_video_id_result[of "ustr ''https://youtu.be/dQw4w9WgXcQ''" "ustr ''dQw4w9WgXcQ''"]
    short_example short_example_match
  by simp

text \<open>
  C5, the claim as stated fails: for the reference \<^verbatim>\<open>hello world\<close> no pattern matches, the
  trimmed reference has 11 characters, and it is returned although it contains a space.
\<close>

theorem get_video_id_class_counterexample:
  "get_video_id (ustr ''hello world'') = Inr (Some (ustr ''hello world'')) \<and>
   \<not> list_all idc (ustr ''hello world'')"
  using hello_world by (simp add: ustr_def idc_def)

text \<open>
  C10. The extraction accepts references that are not YouTube URLs. Take the leftmost
  place of a reference where \<^verbatim>\<open>v=\<close> or \<^verbatim>\<open>/\<close> is immediately followed by 11 characters of
  \<^verbatim>\<open>[0-9A-Za-z_-]\<close>: the reference is \<open>pre @ sep @ X @ rest\<close>, and every place where a
  separator is followed by 11 characters of the class is at or after the end of \<open>pre\<close>.
  Then the extraction returns \<open>X\<close>, whatever \<open>pre\<close> and \<open>rest\<close> are, so that
  \<^verbatim>\<open>https://example.com/abcdefghijk\<close> yields \<^verbatim>\<open>abcdefghijk\<close>. And whenever the embed pattern
  or the youtu.be pattern matches a reference, the first pattern matches it too, so that
  the loop never reaches them with a match.
\<close>

theorem get_video_id_first_pattern:
  "((sep = ustr ''v='' \<or> sep = ustr ''/'') \<and> length X = 11 \<and> list_all idc X \<and>
    (\<forall>a s Y r. (s = ustr ''v='' \<or> s = ustr ''/'') \<and> length Y = 11 \<and> list_all idc Y \<and>
        pre @ sep @ X @ rest = a @ s @ Y @ r \<longrightarrow> length pre \<le> length a)
     \<longrightarrow> get_video_id (pre @ sep @ X @ rest) = Inr (Some X)) \<and>
   get_video_id (ustr ''https://example.com/abcdefghijk'') = Inr (Some (ustr ''abcdefghijk'')) \<and>
   (re_search no_flags pattern_embed url \<noteq> None \<or> re_search no_flags pattern_short url \<noteq> None
     \<longrightarrow> re_search no_flags pattern_watch url \<noteq> None)"
proof (intro conjI impI)
  assume h: "(sep = ustr ''v='' \<or> sep = ustr ''/'') \<and> length X = 11 \<and> list_all idc X \<and>
    (\<forall>a s Y r. (s = ustr ''v='' \<or> s = ustr ''/'') \<and> length Y = 11 \<and> list_all idc Y \<and>
        pre @ sep @ X @ rest = a @ s @ Y @ r \<longrightarrow> length pre \<le> length a)"
  show "get_video_id (pre @ sep @ X @ rest) = Inr (Some X)"
  proof (rule leftmost_sep)
    show "sep = ustr ''v='' \<or> sep = ustr ''/''" "length X = 11" "list_all idc X" using h by simp_all
  next
    fix a s Y r
    assume "s = ustr ''v='' \<or> s = ustr ''/''" "length Y = 11" "list_all idc Y"
      "pre @ sep @ X @ rest = a @ s @ Y @ r"
    then show "length pre \<le> length a" using h by blast
  qed
next
  show "get_video_id (ustr ''https://example.com/abcdefghijk'') = Inr (Some (ustr ''abcdefghijk''))"
    by (rule example_scan)
next
  assume a: "re_search no_flags pattern_embed url \<noteq> None \<or> re_search no_flags pattern_short url \<noteq> None"
  have "scan (id_at (ustr ''embed/'')) url \<noteq> None \<or> scan (id_at (ustr ''youtu.be/'')) url \<noteq> None"
    using a search_embed[of url] search_short[of url] by auto
  then have "vid_scan url \<noteq> None" by (auto simp: vid_scan_def split: option.splits)
  then have "scan watch_at url \<noteq> None" by (simp add: vid_scan_watch)
  then show "re_search no_flags pattern_watch url \<noteq> None"
    using search_watch[of url] by auto
qed

theorem get_video_id_first_pattern_witness:
  "length (ustr ''abcdefghijk'') = 11 \<and> list_all idc (ustr ''abcdefghijk'') \<and>
   get_video_id (ustr ''https://example.com'' @ ustr ''/'' @ ustr ''abcdefghijk'' @ [])
     = Inr (Some (ustr ''abcdefghijk'')) \<and>
   re_search no_flags pattern_embed (ustr ''embed/abcdefghijk'') \<noteq> None \<and>
   re_search no_flags pattern_watch (ustr ''embed/abcdefghijk'') \<noteq> None"
proof -
  have first: "\<forall>a s Y r. (s = ustr ''v='' \<or> s = ustr ''/'') \<and> length Y = 11 \<and> list_all idc Y \<and>
        ustr ''https://example.com'' @ ustr ''/'' @ ustr ''abcdefghijk'' @ [] = a @ s @ Y @ r
        \<longrightarrow> length (ustr ''https://example.com'') \<le> length a"
    using example_leftmost by blast
  have x: "length (ustr ''abcdefghijk'') = 11 \<and> list_all idc (ustr ''abcdefghijk'')"
    by (simp add: ustr_def idc_numeral)
  show ?thesis
    using get_video_id_first_pattern[of "ustr ''/''" "ustr ''abcdefghijk''" "ustr ''https://example.com''" "[]"
        "ustr ''embed/abcdefghijk''"] first x embed_example_match
    by blast
qed

text \<open>
  C6. The claim says that the extraction returns \<open>X\<close> on every embed-path form
  \<^verbatim>\<open>.../embed/X\<close>. On \<^verbatim>\<open>https://youtube-nocookie.com/embed/dQw4w9WgXcQ\<close> it returns
  \<^verbatim>\<open>youtube-noc\<close>: the first pattern is tried first and finds the \<^verbatim>\<open>/\<close> before the host
  name, which is followed by 11 characters of the class. The embed pattern of the same
  list, searched in the same reference, captures \<^verbatim>\<open>dQw4w9WgXcQ\<close>, but the loop never
  tries it. The forms \<^verbatim>\<open>https://www.youtube.com/watch?v=X\<close>, \<^verbatim>\<open>https://youtu.be/X\<close> and
  \<^verbatim>\<open>https://www.youtube.com/embed/X\<close> and the bare \<open>X\<close> do return \<open>X\<close> (lemmas
  \<open>watch_form\<close>, \<open>short_form\<close>, \<open>embed_form\<close>, \<open>bare_form\<close>).
\<close>

theorem get_video_id_embed_host:
  "get_video_id (ustr ''https://youtube-nocookie.com/embed/dQw4w9WgXcQ'')
     = Inr (Some (ustr ''youtube-noc'')) \<and>
   map_option group1
     (re_search no_flags pattern_embed (ustr ''https://youtube-nocookie.com/embed/dQw4w9WgXcQ''))
     = Some (Some (ustr ''dQw4w9WgXcQ''))"
  using nocookie_host nocookie_embed by simp

section \<open>Claims about parse_article_response\<close>

text \<open>
  C3. On the response \<^verbatim>\<open>TITLE: Foo\n\nBody text\n\nHASHTAGS: #a #b #c\<close> the parser returns
  the title \<^verbatim>\<open>Foo\<close>, the body \<^verbatim>\<open>Body text\<close> and the hashtags \<^verbatim>\<open>#a\<close>, \<^verbatim>\<open>#b\<close>, \<^verbatim>\<open>#c\<close>, at
  whatever time it runs.
\<close>

theorem parse_round_trip:
  "parse_article_response now (ustr ''TITLE: Foo\<newline>\<newline>Body text\<newline>\<newline>HASHTAGS: #a #b #c'')
     = Inr (ustr ''Foo'', ustr ''Body text'', [ustr ''#a'', ustr ''#b'', ustr ''#c''])"
  by (simp add: parse_article_response_def c3_title c3_hashtags) (simp add: ustr_def)

text \<open>
  C7 (as amended). The parser never fails and never returns an empty title. When no line
  matches the title pattern, the title is \<^verbatim>\<open>Article_\<close> followed by the time stamp. When the
  response does not contain \<^verbatim>\<open>HASHTAGS:\<close>, the hashtag list is empty and the body is what
  the title step left: the raw response itself, not trimmed, when no title line matched,
  and the response with the title lines removed, trimmed, when one matched. The claim
  says the body is trimmed in both cases.
\<close>

theorem parse_total_defaults:
  "(\<exists>t c h. parse_article_response now raw = Inr (t, c, h) \<and> t \<noteq> []) \<and>
   (re_search multi title_rx raw = None \<longrightarrow>
      (\<exists>c h. parse_article_response now raw = Inr (ustr ''Article_'' @ strftime_stamp now, c, h))) \<and>
   ((\<forall>a b. raw \<noteq> a @ ustr ''HASHTAGS:'' @ b) \<longrightarrow>
      (\<exists>t. parse_article_response now raw =
         Inr (t, if re_search multi title_rx raw = None then raw
                 else strip (re_sub multi title_sub_rx [] raw), [])))"
proof (intro conjI impI)
  show "\<exists>t c h. parse_article_response now raw = Inr (t, c, h) \<and> t \<noteq> []"
    unfolding parse_explicit using stamp_ne[of now] by (auto split: option.splits)
next
  assume "re_search multi title_rx raw = None"
  then have "pscan title_at None raw = None" by (simp add: title_None_iff)
  then show "\<exists>c h. parse_article_response now raw = Inr (ustr ''Article_'' @ strftime_stamp now, c, h)"
    unfolding parse_explicit by simp
next
  assume "\<forall>a b. raw \<noteq> a @ ustr ''HASHTAGS:'' @ b"
  then have n: "pscan hashtags_at None raw = None" by (rule no_marker)
  show "\<exists>t. parse_article_response now raw =
         Inr (t, if re_search multi title_rx raw = None then raw
                 else strip (re_sub multi title_sub_rx [] raw), [])"
    unfolding parse_explicit title_None_iff sub_title using n by (auto split: option.splits)
qed

theorem parse_total_defaults_witness:
  "parse_article_response
      \<lparr>year = 2026, month = 11, day = 4, hour = 9, minute = 30, second = 0\<rparr> (ustr '' x '')
     = Inr (ustr ''Article_20261104_093000'', ustr '' x '', [])"
proof -
  let ?now = "\<lparr>year = 2026, month = 11, day = 4, hour = 9, minute = 30, second = 0\<rparr>"
  note t = parse_total_defaults[of ?now "ustr '' x ''"]
  from t plain_title_none obtain c h where
    1: "parse_article_response ?now (ustr '' x '') = Inr (ustr ''Article_'' @ strftime_stamp ?now, c, h)"
    by blast
  from t plain_no_marker plain_title_none obtain ti where
    2: "parse_article_response ?now (ustr '' x '') = Inr (ti, ustr '' x '', [])"
    by auto
  from 1 2 show ?thesis by (simp add: example_stamp)
qed

text \<open>
  C7, the claim as stated fails: the response \<^verbatim>\<open>" x "\<close> has neither marker, and the body
  returned is \<^verbatim>\<open>" x "\<close>, with its spaces, not the trimmed \<^verbatim>\<open>"x"\<close>.
\<close>

theorem parse_untrimmed_counterexample:
  "parse_article_response
      \<lparr>year = 2026, month = 11, day = 4, hour = 9, minute = 30, second = 0\<rparr> (ustr '' x '')
     = Inr (ustr ''Article_20261104_093000'', ustr '' x '', []) \<and>
   strip (ustr '' x '') = ustr ''x''"
  using plain_example by (simp add: ustr_def strip_def isspace_numeral)

text \<open>
  C1 (as amended). The claim says that the capture runs from the marker to the end of the
  response and that the text after the hashtag line is lost. The quantifier \<^verbatim>\<open>.+?\<close> is
  lazy and \<^verbatim>\<open>$\<close> matches before every newline, so the capture ends at the end of the line.
  What holds, for every response \<open>raw\<close> in which the first \<^verbatim>\<open>HASHTAGS:\<close> is followed by at
  least one character: the hashtags are the whitespace-separated tokens, in order, of the
  text between the whitespace after that marker and the end of its line. The substitution
  runs on \<open>content\<close>, what the title step left of the response (the response itself when
  no title line matched, the response without its title lines, trimmed, when one matched).
  When \<open>content\<close> holds the marker once, followed by at least one character, the body is
  \<open>content\<close> without the region from the marker to the end of that line, trimmed, so the
  text after the hashtag line stays in the body; when \<open>content\<close> does not hold the marker
  (the title step removed it), the body is \<open>content\<close>, trimmed.
\<close>

theorem parse_hashtags_line:
  "raw = pre @ ustr ''HASHTAGS:'' @ t \<and> t \<noteq> [] \<and>
   (\<forall>a b. raw = a @ ustr ''HASHTAGS:'' @ b \<longrightarrow> length pre \<le> length a) \<and>
   content = (if re_search multi title_rx raw = None then raw
              else strip (re_sub multi title_sub_rx [] raw)) \<longrightarrow>
     (\<exists>ti c. parse_article_response now raw =
        Inr (ti, c, split (takeWhile (\<lambda>c. c \<noteq> 10) (dropWhile isspace t)))) \<and>
     (content = pre' @ ustr ''HASHTAGS:'' @ t' \<and> t' \<noteq> [] \<and>
      (\<forall>a b. content = a @ ustr ''HASHTAGS:'' @ b \<longrightarrow> length pre' \<le> length a) \<and>
      (\<forall>a b. t' \<noteq> a @ ustr ''HASHTAGS:'' @ b) \<longrightarrow>
        (\<exists>ti. parse_article_response now raw =
           Inr (ti, strip (pre' @ dropWhile (\<lambda>c. c \<noteq> 10) (dropWhile isspace t')),
                split (takeWhile (\<lambda>c. c \<noteq> 10) (dropWhile isspace t))))) \<and>
     ((\<forall>a b. content \<noteq> a @ ustr ''HASHTAGS:'' @ b) \<longrightarrow>
        (\<exists>ti. parse_article_response now raw =
           Inr (ti, strip content, split (takeWhile (\<lambda>c. c \<noteq> 10) (dropWhile isspace t)))))"
proof (intro impI)
  assume a: "raw = pre @ ustr ''HASHTAGS:'' @ t \<and> t \<noteq> [] \<and>
   (\<forall>a b. raw = a @ ustr ''HASHTAGS:'' @ b \<longrightarrow> length pre \<le> length a) \<and>
   content = (if re_search multi title_rx raw = None then raw
              else strip (re_sub multi title_sub_rx [] raw))"
  then have raw: "raw = pre @ ustr ''HASHTAGS:'' @ t" and t: "t \<noteq> []"
    and first: "\<forall>a b. pre @ ustr ''HASHTAGS:'' @ t = a @ ustr ''HASHTAGS:'' @ b \<longrightarrow> length pre \<le> length a"
    and content: "content = (if re_search multi title_rx raw = None then raw
              else strip (re_sub multi title_sub_rx [] raw))"
    by auto
  have n: "nl = (\<lambda>c. c \<noteq> 10)" by (rule ext) (simp add: nl_def)
  from c1_parse[OF t first, of now] obtain ti where
    p: "parse_article_response now raw =
          Inr (ti, strip (remove_hashtags content),
               split (takeWhile (\<lambda>c. c \<noteq> 10) (dropWhile isspace t)))"
    unfolding raw[symmetric] content[symmetric] by blast
  show "(\<exists>ti c. parse_article_response now raw =
        Inr (ti, c, split (takeWhile (\<lambda>c. c \<noteq> 10) (dropWhile isspace t)))) \<and>
     (content = pre' @ ustr ''HASHTAGS:'' @ t' \<and> t' \<noteq> [] \<and>
      (\<forall>a b. content = a @ ustr ''HASHTAGS:'' @ b \<longrightarrow> length pre' \<le> length a) \<and>
      (\<forall>a b. t' \<noteq> a @ ustr ''HASHTAGS:'' @ b) \<longrightarrow>
        (\<exists>ti. parse_article_response now raw =
           Inr (ti, strip (pre' @ dropWhile (\<lambda>c. c \<noteq> 10) (dropWhile isspace t')),
                split (takeWhile (\<lambda>c. c \<noteq> 10) (dropWhile isspace t))))) \<and>
     ((\<forall>a b. content \<noteq> a @ ustr ''HASHTAGS:'' @ b) \<longrightarrow>
        (\<exists>ti. parse_article_response now raw =
           Inr (ti, strip content, split (takeWhile (\<lambda>c. c \<noteq> 10) (dropWhile isspace t)))))"
  proof (intro conjI impI)
    show "\<exists>ti c. parse_article_response now raw =
        Inr (ti, c, split (takeWhile (\<lambda>c. c \<noteq> 10) (dropWhile isspace t)))"
      using p by blast
  next
    assume b: "content = pre' @ ustr ''HASHTAGS:'' @ t' \<and> t' \<noteq> [] \<and>
      (\<forall>a b. content = a @ ustr ''HASHTAGS:'' @ b \<longrightarrow> length pre' \<le> length a) \<and>
      (\<forall>a b. t' \<noteq> a @ ustr ''HASHTAGS:'' @ b)"
    then have c: "content = pre' @ ustr ''HASHTAGS:'' @ t'" and t': "t' \<noteq> []"
      and first': "\<forall>a b. pre' @ ustr ''HASHTAGS:'' @ t' = a @ ustr ''HASHTAGS:'' @ b \<longrightarrow> length pre' \<le> length a"
      and after: "\<forall>a b. t' \<noteq> a @ ustr ''HASHTAGS:'' @ b"
      by auto
    have "remove_hashtags content = pre' @ dropWhile (\<lambda>c. c \<noteq> 10) (dropWhile isspace t')"
      using c1_body[OF t' first' after] unfolding c n .
    then show "\<exists>ti. parse_article_response now raw =
           Inr (ti, strip (pre' @ dropWhile (\<lambda>c. c \<noteq> 10) (dropWhile isspace t')),
                split (takeWhile (\<lambda>c. c \<noteq> 10) (dropWhile isspace t)))"
      using p by simp
  next
    assume "\<forall>a b. content \<noteq> a @ ustr ''HASHTAGS:'' @ b"
    then have "remove_hashtags content = content" by (rule remove_hashtags_none)
    then show "\<exists>ti. parse_article_response now raw =
           Inr (ti, strip content, split (takeWhile (\<lambda>c. c \<noteq> 10) (dropWhile isspace t)))"
      using p by simp
  qed
qed

theorem parse_hashtags_line_witness:
  "parse_article_response
      \<lparr>year = 2026, month = 11, day = 4, hour = 9, minute = 30, second = 0\<rparr>
      (ustr ''TITLE: T\<newline>Body\<newline>HASHTAGS: #a #b\<newline>extra'')
     = Inr (ustr ''T'', ustr ''Body\<newline>\<newline>extra'', [ustr ''#a'', ustr ''#b''])"
proof -
  let ?now = "\<lparr>year = 2026, month = 11, day = 4, hour = 9, minute = 30, second = 0\<rparr>"
  let ?raw = "ustr ''TITLE: T\<newline>Body\<newline>HASHTAGS: #a #b\<newline>extra''"
  let ?content = "ustr ''Body\<newline>HASHTAGS: #a #b\<newline>extra''"
  have ne: "ustr '' #a #b\<newline>extra'' \<noteq> []" by (simp add: ustr_def)
  have c: "?content = (if re_search multi title_rx ?raw = None then ?raw
              else strip (re_sub multi title_sub_rx [] ?raw))"
    by (rule titled_content[symmetric])
  from parse_hashtags_line[of ?raw "ustr ''TITLE: T\<newline>Body\<newline>''" "ustr '' #a #b\<newline>extra''" ?content
      ?now "ustr ''Body\<newline>''" "ustr '' #a #b\<newline>extra''"]
    titled_raw titled_first c hashline_raw hashline_first hashline_after ne
  obtain ti where
    "parse_article_response ?now ?raw =
       Inr (ti, strip (ustr ''Body\<newline>'' @ dropWhile (\<lambda>c. c \<noteq> 10) (dropWhile isspace (ustr '' #a #b\<newline>extra''))),
            split (takeWhile (\<lambda>c. c \<noteq> 10) (dropWhile isspace (ustr '' #a #b\<newline>extra''))))"
    by blast
  then show ?thesis using titled_title[of ?now] by (auto simp: hashline_values)
qed

text \<open>
  C1, the claim as stated fails: in the response below the line \<^verbatim>\<open>extra\<close> follows the
  hashtag line. It is not captured as a hashtag and it is not removed from the body.
\<close>

theorem parse_trailing_text_counterexample:
  "parse_article_response
      \<lparr>year = 2026, month = 11, day = 4, hour = 9, minute = 30, second = 0\<rparr>
      (ustr ''TITLE: T\<newline>\<newline>Body\<newline>\<newline>HASHTAGS: #a\<newline>extra'')
     = Inr (ustr ''T'', ustr ''Body\<newline>\<newline>\<newline>extra'', [ustr ''#a''])"
  by (rule trailing_example)

section \<open>Claims about sanitize_filename\<close>

text \<open>
  C8 (as amended). The claim says that every title longer than 100 characters gives a
  file name of exactly 100 characters. The length is tested after the characters
  \<^verbatim>\<open>< > : " / \ | ? *\<close> have been removed and the whitespace runs replaced by one underscore
  each. What holds: the result is the first 100 characters of the title so cleaned, hence
  exactly 100 characters when the cleaned title has at least 100 and the whole cleaned
  title otherwise; it is never longer than the title.
\<close>

theorem sanitize_filename_length:
  "sanitize_filename t = take 100 (collapse (filter (\<lambda>c. \<not> invalid c) t)) \<and>
   length (sanitize_filename t) = min 100 (length (collapse (filter (\<lambda>c. \<not> invalid c) t))) \<and>
   length (sanitize_filename t) \<le> length t"
proof -
  have "length (collapse (filter (\<lambda>c. \<not> invalid c) t)) \<le> length t"
    using length_collapse[of "filter (\<lambda>c. \<not> invalid c) t"] length_filter_le[of "\<lambda>c. \<not> invalid c" t]
    by linarith
  then show ?thesis by (simp add: sanitize_explicit min_def)
qed

text \<open>
  C8, the claim as stated fails: a title of 101 question marks is longer than 100
  characters and its file name is empty.
\<close>

theorem sanitize_filename_counterexample:
  "length (replicate 101 (63 :: nat)) = 101 \<and> sanitize_filename (replicate 101 63) = []"
  by (simp add: sanitize_explicit invalid_def)







end
